theory Spec2Isabelle
  imports Complex_Main
begin

section \<open>Grid, positions and actions\<close>

text \<open>
  The maze is a two-dimensional array of cell codes (0 empty, 1 wall, 2 start, 3 goal),
  modelled as a list of rows. Positions are pairs (row, column) of Python integers.
  \<open>ACTIONS\<close> is the module constant of \<open>logic/ai_bot_logic.py\<close>: up, down, left, right.
\<close>

type_synonym pos = "int \<times> int"
type_synonym grid = "nat list list"

datatype py_error = IndexError | ValueError

definition EMPTY :: nat where "EMPTY = 0"
definition WALL :: nat where "WALL = 1"
definition START :: nat where "START = 2"
definition GOAL :: nat where "GOAL = 3"

definition ACTIONS :: "pos list" where
  "ACTIONS = [(-1, 0), (1, 0), (0, -1), (0, 1)]"

definition height :: "grid \<Rightarrow> nat" where
  "height m = length m"

definition width :: "grid \<Rightarrow> nat" where
  "width m = (case m of [] \<Rightarrow> 0 | r # _ \<Rightarrow> length r)"

definition in_bounds :: "grid \<Rightarrow> pos \<Rightarrow> bool" where
  "in_bounds m p \<longleftrightarrow> 0 \<le> fst p \<and> fst p < int (height m) \<and> 0 \<le> snd p \<and> snd p < int (width m)"

text \<open>\<open>cell m p\<close> reads \<open>maze[p[0], p[1]]\<close>; it is only used behind a bounds check.\<close>

definition cell :: "grid \<Rightarrow> pos \<Rightarrow> nat" where
  "cell m p = m ! nat (fst p) ! nat (snd p)"

definition move :: "pos \<Rightarrow> pos \<Rightarrow> pos" where
  "move p d = (fst p + fst d, snd p + snd d)"

definition heuristic :: "pos \<Rightarrow> pos \<Rightarrow> int" where
  "heuristic a b = \<bar>fst a - fst b\<bar> + \<bar>snd a - snd b\<bar>"

text \<open>\<open>MazeBot.is_valid\<close>: within bounds and not a wall.\<close>

definition is_valid :: "grid \<Rightarrow> pos \<Rightarrow> bool" where
  "is_valid m p \<longleftrightarrow> in_bounds m p \<and> cell m p \<noteq> WALL"

section \<open>AStarMazeSolver\<close>

text \<open>
  The open set is a heap of tuples (f, count, position). \<open>heappop\<close> returns the least
  tuple in Python's lexicographic order; the counts are pairwise different, so the
  position is never compared. The model keeps the open set as a list and removes its
  least element; the order of the remaining entries is not observable, since the code
  only pops and tests membership. The dictionary \<open>f_score\<close> is written and never read;
  its value is the first component of the pushed tuple.
\<close>

type_synonym open_item = "int \<times> nat \<times> pos"

record astar_state =
  open_set :: "open_item list"
  counter :: nat
  came_from :: "pos \<rightharpoonup> pos"
  g_score :: "pos \<rightharpoonup> int"
  closed_set :: "pos set"

definition item_less :: "open_item \<Rightarrow> open_item \<Rightarrow> bool" where
  "item_less a b \<longleftrightarrow> fst a < fst b \<or> (fst a = fst b \<and> fst (snd a) < fst (snd b))"

fun heap_min :: "open_item \<Rightarrow> open_item list \<Rightarrow> open_item" where
  "heap_min a [] = a"
| "heap_min a (b # bs) = heap_min (if item_less b a then b else a) bs"

text \<open>
  One pass of the body of \<open>for dx, dy in ACTIONS\<close> in \<open>solve\<close>. A missing
  \<open>g_score\<close> entry reads as infinity, so nothing is recorded from it.
\<close>

definition relax :: "grid \<Rightarrow> pos \<Rightarrow> pos \<Rightarrow> pos \<Rightarrow> astar_state \<Rightarrow> astar_state" where
  "relax m goal current d st =
     (let neighbor = move current d in
      if \<not> in_bounds m neighbor \<or> cell m neighbor = WALL \<or> neighbor \<in> closed_set st then st
      else case g_score st current of
        None \<Rightarrow> st
      | Some gc \<Rightarrow>
          let tentative_g = gc + 1;
              better = (case g_score st neighbor of None \<Rightarrow> True | Some gn \<Rightarrow> tentative_g < gn)
          in if better then
               let st1 = st\<lparr>came_from := (came_from st)(neighbor \<mapsto> current),
                            g_score := (g_score st)(neighbor \<mapsto> tentative_g)\<rparr>
               in if neighbor \<notin> set (map (\<lambda>it. snd (snd it)) (open_set st1)) then
                    st1\<lparr>counter := counter st1 + 1,
                        open_set := open_set st1 @
                          [(tentative_g + heuristic neighbor goal, counter st1 + 1, neighbor)]\<rparr>
                  else st1
             else st)"

text \<open>
  \<open>_reconstruct_path\<close> follows \<open>came_from\<close> until a position without an entry; the
  list is built from the goal backwards and reversed. The fuel bounds the number
  of links followed.
\<close>

fun path_back :: "nat \<Rightarrow> (pos \<rightharpoonup> pos) \<Rightarrow> pos \<Rightarrow> pos list option" where
  "path_back 0 cf current = None"
| "path_back (Suc n) cf current =
     (case cf current of
        None \<Rightarrow> Some [current]
      | Some prev \<Rightarrow> (case path_back n cf prev of None \<Rightarrow> None | Some ps \<Rightarrow> Some (current # ps)))"

definition reconstruct_path :: "nat \<Rightarrow> (pos \<rightharpoonup> pos) \<Rightarrow> pos \<Rightarrow> pos list option" where
  "reconstruct_path n cf current = map_option rev (path_back n cf current)"

text \<open>The \<open>while open_set\<close> loop of \<open>solve\<close>; the fuel bounds the number of pops.\<close>

fun astar_loop :: "nat \<Rightarrow> nat \<Rightarrow> grid \<Rightarrow> pos \<Rightarrow> astar_state \<Rightarrow> pos list option" where
  "astar_loop 0 k m goal st = None"
| "astar_loop (Suc n) k m goal st =
     (case open_set st of
        [] \<Rightarrow> Some []
      | a # as \<Rightarrow>
          let item = heap_min a as;
              current = snd (snd item)
          in if current = goal then reconstruct_path k (came_from st) current
             else astar_loop n k m goal
                    (fold (relax m goal current) ACTIONS
                       (st\<lparr>open_set := remove1 item (open_set st),
                           closed_set := insert current (closed_set st)\<rparr>)))"

definition astar_init :: "pos \<Rightarrow> astar_state" where
  "astar_init start =
     \<lparr>open_set = [(0, 0, start)], counter = 0, came_from = Map.empty,
      g_score = [start \<mapsto> 0], closed_set = {}\<rparr>"

definition solve_fuel :: "grid \<Rightarrow> nat" where
  "solve_fuel m = height m * width m + 2"

definition solve_opt :: "grid \<Rightarrow> pos \<Rightarrow> pos \<Rightarrow> pos list option" where
  "solve_opt m start goal = astar_loop (solve_fuel m) (solve_fuel m) m goal (astar_init start)"

text \<open>
  \<open>AStarMazeSolver.solve\<close>. The loops of the source return within \<open>solve_fuel\<close> pops and
  links (lemma \<open>solve_opt_returns\<close> below), so the second case is never taken.
\<close>

definition solve :: "grid \<Rightarrow> pos \<Rightarrow> pos \<Rightarrow> pos list" where
  "solve m start goal = (case solve_opt m start goal of Some p \<Rightarrow> p | None \<Rightarrow> [])"

section \<open>QLearningAgent\<close>

text \<open>
  The Q-table is a numeric array of shape (rows, columns, 4), modelled as nested lists
  of reals: the arithmetic of the update is exact, and the rounding of the 64-bit floats
  of numpy is not modelled. Indexing an axis of size \<open>n\<close> with \<open>i\<close> follows numpy: \<open>0 \<le> i < n\<close> reads
  entry \<open>i\<close>, \<open>-n \<le> i < 0\<close> reads entry \<open>n + i\<close>, anything else raises IndexError.
\<close>

type_synonym qtable = "real list list list"

definition ALPHA :: real where "ALPHA = 0.1"
definition GAMMA :: real where "GAMMA = 0.9"
definition MAX_BACKTRACKS :: int where "MAX_BACKTRACKS = 5000"
definition MAX_STEPS :: int where "MAX_STEPS = 20000"

definition py_index :: "nat \<Rightarrow> int \<Rightarrow> nat option" where
  "py_index n i =
     (if 0 \<le> i \<and> i < int n then Some (nat i)
      else if - int n \<le> i \<and> i < 0 then Some (nat (int n + i))
      else None)"

definition shape0 :: "qtable \<Rightarrow> nat" where
  "shape0 q = length q"

definition shape1 :: "qtable \<Rightarrow> nat" where
  "shape1 q = (case q of [] \<Rightarrow> 0 | r # _ \<Rightarrow> length r)"

text \<open>\<open>q_table[p[0], p[1]]\<close>: the row of the four action values of a cell.\<close>

definition q_row :: "qtable \<Rightarrow> pos \<Rightarrow> py_error + real list" where
  "q_row q p =
     (case py_index (shape0 q) (fst p) of
        None \<Rightarrow> Inl IndexError
      | Some r \<Rightarrow>
          (case py_index (shape1 q) (snd p) of
             None \<Rightarrow> Inl IndexError
           | Some c \<Rightarrow> Inr (q ! r ! c)))"

definition np_max :: "real list \<Rightarrow> py_error + real" where
  "np_max xs = (case xs of [] \<Rightarrow> Inl ValueError | x # ys \<Rightarrow> Inr (fold max ys x))"

fun argmax_from :: "nat \<Rightarrow> real \<Rightarrow> nat \<Rightarrow> real list \<Rightarrow> nat" where
  "argmax_from best bv i [] = best"
| "argmax_from best bv i (x # xs) =
     (if bv < x then argmax_from i x (Suc i) xs else argmax_from best bv (Suc i) xs)"

text \<open>\<open>np.argmax\<close>: the first index of a greatest entry.\<close>

definition np_argmax :: "real list \<Rightarrow> py_error + nat" where
  "np_argmax xs = (case xs of [] \<Rightarrow> Inl ValueError | x # ys \<Rightarrow> Inr (argmax_from 0 x 1 ys))"

text \<open>
  \<open>QLearningAgent.update_q_table\<close>: the row of \<open>next_state\<close> is read first, then the
  entry of \<open>(state, action)\<close> is updated in place.
\<close>

definition update_q_table :: "qtable \<Rightarrow> pos \<Rightarrow> nat \<Rightarrow> real \<Rightarrow> pos \<Rightarrow> py_error + qtable" where
  "update_q_table q state action reward next_state =
     (case q_row q next_state of
        Inl e \<Rightarrow> Inl e
      | Inr nrow \<Rightarrow>
          (case np_max nrow of
             Inl e \<Rightarrow> Inl e
           | Inr best_next_action \<Rightarrow>
               (case (py_index (shape0 q) (fst state), py_index (shape1 q) (snd state)) of
                  (Some r, Some c) \<Rightarrow>
                    if action < length (q ! r ! c) then
                      let old = q ! r ! c ! action;
                          new = old + ALPHA * (reward + GAMMA * best_next_action - old)
                      in Inr (q[r := (q ! r)[c := (q ! r ! c)[action := new]]])
                    else Inl IndexError
                | _ \<Rightarrow> Inl IndexError)))"

text \<open>
  \<open>QLearningAgent.explore_action\<close>: the candidates are the actions whose target lies
  within the shape of the Q-table, each with the visit count of its target; \<open>min\<close> with a
  key returns the first candidate of least count. With no candidate the source draws a
  uniformly random action; \<open>k\<close> is that draw.
\<close>

definition in_shape :: "qtable \<Rightarrow> pos \<Rightarrow> bool" where
  "in_shape q p \<longleftrightarrow> 0 \<le> fst p \<and> fst p < int (shape0 q) \<and> 0 \<le> snd p \<and> snd p < int (shape1 q)"

definition visits :: "(pos \<rightharpoonup> nat) \<Rightarrow> pos \<Rightarrow> nat" where
  "visits vc p = (case vc p of None \<Rightarrow> 0 | Some n \<Rightarrow> n)"

definition explore_candidates :: "qtable \<Rightarrow> (pos \<rightharpoonup> nat) \<Rightarrow> pos \<Rightarrow> (nat \<times> nat) list" where
  "explore_candidates q vc state =
     map (\<lambda>idx. (idx, visits vc (move state (ACTIONS ! idx))))
       (filter (\<lambda>idx. in_shape q (move state (ACTIONS ! idx))) [0..<length ACTIONS])"

fun min_by_count :: "nat \<times> nat \<Rightarrow> (nat \<times> nat) list \<Rightarrow> nat \<times> nat" where
  "min_by_count a [] = a"
| "min_by_count a (b # bs) = min_by_count (if snd b < snd a then b else a) bs"

definition explore_action :: "qtable \<Rightarrow> (pos \<rightharpoonup> nat) \<Rightarrow> pos \<Rightarrow> nat \<Rightarrow> nat" where
  "explore_action q vc state k =
     (case explore_candidates q vc state of
        [] \<Rightarrow> k mod length ACTIONS
      | a # as \<Rightarrow> fst (min_by_count a as))"

definition epsilon_of :: "int \<Rightarrow> int \<Rightarrow> real" where
  "epsilon_of total_steps lvl =
     max 0.05 (0.3 - real_of_int total_steps / 10000 - real_of_int lvl * 0.02)"

section \<open>MazeBot\<close>

text \<open>
  The bot object, with the fields of its \<open>QLearningAgent\<close> (\<open>q_table\<close>, \<open>visit_counts\<close>,
  \<open>level\<close>) and the array \<open>game.maze\<close> held in the same record. A call of \<open>step\<close>
  takes the record and returns the result together with the record as the call left it;
  an exception is the result \<open>Inl\<close>, with the mutations made before it was raised.
  The wall-clock field \<open>start_time\<close> is left out.
\<close>

record maze_bot =
  maze :: grid
  q_table :: qtable
  visit_counts :: "pos \<rightharpoonup> nat"
  level :: int
  start :: pos
  goal :: pos
  state :: pos
  visited_states :: "pos set"
  backtrack_count :: int
  step_count :: int
  visited_counts :: "pos \<rightharpoonup> nat"
  last_state :: "pos option"

datatype step_result = Regenerate | Position pos

text \<open>\<open>np.argwhere(maze == code)\<close>: the positions holding the code, in row-major order.\<close>

definition argwhere :: "grid \<Rightarrow> nat \<Rightarrow> pos list" where
  "argwhere m code =
     concat (map (\<lambda>r. map (\<lambda>c. (int r, int c))
                          (filter (\<lambda>c. m ! r ! c = code) [0..<length (m ! r)]))
                 [0..<length m])"

definition first_where :: "grid \<Rightarrow> nat \<Rightarrow> py_error + pos" where
  "first_where m code = (case argwhere m code of [] \<Rightarrow> Inl IndexError | p # _ \<Rightarrow> Inr p)"

text \<open>
  \<open>QLearningAgent.choose_action\<close>; \<open>u\<close> is the draw of \<open>random.uniform(0, 1)\<close> and \<open>k\<close>
  the draw used by \<open>explore_action\<close> when it has no candidate.
\<close>

definition choose_action ::
  "real \<Rightarrow> nat \<Rightarrow> 'a maze_bot_scheme \<Rightarrow> pos \<Rightarrow> int \<Rightarrow> (py_error + nat) \<times> 'a maze_bot_scheme" where
  "choose_action u k b st total_steps =
     (let b1 = b\<lparr>visit_counts := (visit_counts b)(st \<mapsto> visits (visit_counts b) st + 1)\<rparr> in
      if u < epsilon_of total_steps (level b1)
      then (Inr (explore_action (q_table b1) (visit_counts b1) st k), b1)
      else (case q_row (q_table b1) st of
              Inl e \<Rightarrow> (Inl e, b1)
            | Inr row \<Rightarrow> (np_argmax row, b1)))"

definition scale_q :: "real \<Rightarrow> qtable \<Rightarrow> qtable" where
  "scale_q f q = map (map (map (\<lambda>v. v * f))) q"

text \<open>The reward and the record after the move of \<open>MazeBot.step\<close> (lines 256 to 281).\<close>

definition take_move ::
  "'a maze_bot_scheme \<Rightarrow> pos \<Rightarrow> real \<times> 'a maze_bot_scheme" where
  "take_move b next_state =
     (let current_dist = heuristic (state b) (goal b);
          new_dist = (if is_valid (maze b) next_state then heuristic next_state (goal b)
                      else current_dist);
          progress_reward = (current_dist - new_dist) * 2
      in if is_valid (maze b) next_state then
           (let reward =
                  (if next_state = goal b then 100
                   else real_of_int progress_reward
                        - 10 * (real (visits (visited_counts b) next_state) + 1)
                        - (if last_state b = Some next_state then 15 else 0))
            in (reward,
                b\<lparr>visited_counts :=
                     (visited_counts b)(next_state \<mapsto> visits (visited_counts b) next_state + 1),
                  last_state := Some (state b),
                  state := next_state,
                  step_count := step_count b + 1\<rparr>))
         else (- 20, b))"

definition step ::
  "real \<Rightarrow> nat \<Rightarrow> 'a maze_bot_scheme \<Rightarrow> (py_error + step_result) \<times> 'a maze_bot_scheme" where
  "step u k b =
     (if backtrack_count b \<ge> MAX_BACKTRACKS \<or> step_count b \<ge> MAX_STEPS then
        (case first_where (maze b) START of
           Inl e \<Rightarrow> (Inl e, b)
         | Inr s \<Rightarrow>
             (case first_where (maze b) GOAL of
                Inl e \<Rightarrow> (Inl e, b)
              | Inr g \<Rightarrow>
                  if solve (maze b) s g = [] then (Inr Regenerate, b)
                  else (Inr (Position (state b)),
                        b\<lparr>q_table := scale_q 0.9 (q_table b),
                          backtrack_count := 0, step_count := 0\<rparr>)))
      else
        (case choose_action u k b (state b) (step_count b) of
           (Inl e, b1) \<Rightarrow> (Inl e, b1)
         | (Inr action_idx, b1) \<Rightarrow>
             if action_idx < length ACTIONS then
               (let next_state = move (state b1) (ACTIONS ! action_idx);
                    (reward, b2) = take_move b1 next_state
                in case update_q_table (q_table b2) (state b2) action_idx reward next_state of
                     Inl e \<Rightarrow> (Inl e, b2)
                   | Inr q \<Rightarrow> (Inr (Position (state b2)), b2\<lparr>q_table := q\<rparr>))
             else (Inl IndexError, b1)))"

section \<open>EnhancedMazeBot\<close>

text \<open>
  The subclass adds the A* solver object (its fields \<open>start\<close>, \<open>goal\<close> and \<open>path\<close>; its
  \<open>maze\<close> is the array of the game, and its statistics are not read by the bot), the
  path cache, the dead-end set and the current direction.
\<close>

record enhanced_bot = maze_bot +
  as_start :: pos
  as_goal :: pos
  as_path :: "pos list"
  a_star_cache :: "(pos \<times> pos) \<rightharpoonup> nat list"
  dead_ends :: "pos set"
  current_direction :: "pos option"

text \<open>\<open>astar_solver.solve()\<close>: the path is stored in the solver only when one is found.\<close>

definition solver_solve :: "enhanced_bot \<Rightarrow> pos list \<times> enhanced_bot" where
  "solver_solve b =
     (let path = solve (maze b) (as_start b) (as_goal b)
      in (path, if path = [] then b else b\<lparr>as_path := path\<rparr>))"

definition find_action :: "pos \<Rightarrow> nat option" where
  "find_action d = List.find (\<lambda>idx. ACTIONS ! idx = d) [0..<length ACTIONS]"

fun actions_of_path :: "pos list \<Rightarrow> nat list" where
  "actions_of_path (cur # next_pos # ps) =
     (case find_action (fst next_pos - fst cur, snd next_pos - snd cur) of
        None \<Rightarrow> []
      | Some idx \<Rightarrow> [idx]) @ actions_of_path (next_pos # ps)"
| "actions_of_path _ = []"

definition get_action_sequence :: "enhanced_bot \<Rightarrow> nat list \<times> enhanced_bot" where
  "get_action_sequence b =
     (let b1 = (if as_path b = [] then snd (solver_solve b) else b)
      in (actions_of_path (as_path b1), b1))"

definition get_optimal_path :: "enhanced_bot \<Rightarrow> pos \<Rightarrow> nat list \<times> enhanced_bot" where
  "get_optimal_path b current_pos =
     (case a_star_cache b (current_pos, goal b) of
        Some actions \<Rightarrow> (actions, b)
      | None \<Rightarrow>
          (let b1 = b\<lparr>as_start := current_pos, as_path := []\<rparr>;
               b2 = snd (solver_solve b1);
               (actions, b3) = get_action_sequence b2
           in (actions, b3\<lparr>a_star_cache := (a_star_cache b3)((current_pos, goal b) \<mapsto> actions)\<rparr>)))"

definition count_valid_moves :: "grid \<Rightarrow> pos \<Rightarrow> nat" where
  "count_valid_moves m st = length (filter (\<lambda>d. is_valid m (move st d)) ACTIONS)"

definition mark_dead_end :: "enhanced_bot \<Rightarrow> enhanced_bot" where
  "mark_dead_end b =
     (if count_valid_moves (maze b) (state b) = 1 \<and> state b \<noteq> goal b
      then b\<lparr>dead_ends := insert (state b) (dead_ends b)\<rparr> else b)"

definition stuck :: "enhanced_bot \<Rightarrow> bool" where
  "stuck b \<longleftrightarrow>
     real_of_int (backtrack_count b) > 5 * sqrt (real (height (maze b) * width (maze b)))
     \<or> step_count b \<ge> MAX_STEPS"

definition follow_astar_prob :: "enhanced_bot \<Rightarrow> real" where
  "follow_astar_prob b =
     (let stuck_factor = real_of_int (backtrack_count b) / real_of_int (max 1 (step_count b))
      in min 0.95 (0.7 + stuck_factor * 0.25))"

text \<open>
  The look-ahead loop over the first three hinted actions: each action is applied to the
  bot's current position; the first target that is neither a known dead end nor invalid
  is taken.
\<close>

fun first_hint :: "grid \<Rightarrow> pos set \<Rightarrow> pos \<Rightarrow> nat list \<Rightarrow> (py_error + nat \<times> pos) option" where
  "first_hint m de st [] = None"
| "first_hint m de st (action_idx # others) =
     (if action_idx < length ACTIONS then
        (let next_state = move st (ACTIONS ! action_idx)
         in if next_state \<in> de then first_hint m de st others
            else if is_valid m next_state then Some (Inr (action_idx, next_state))
            else first_hint m de st others)
      else Some (Inl IndexError))"

definition commit_hint ::
  "enhanced_bot \<Rightarrow> nat \<Rightarrow> pos \<Rightarrow> (py_error + step_result) \<times> enhanced_bot" where
  "commit_hint b action_idx next_state =
     (let momentum_factor =
            (case current_direction b of
               Some cd \<Rightarrow> if ACTIONS ! action_idx \<noteq> cd then 0.5 else 0.8
             | None \<Rightarrow> 0.7);
          reward = 50 * momentum_factor
      in case update_q_table (q_table b) (state b) action_idx reward next_state of
           Inl e \<Rightarrow> (Inl e, b)
         | Inr q \<Rightarrow>
             (let b1 = b\<lparr>q_table := q,
                         last_state := Some (state b),
                         state := next_state,
                         visited_states := insert next_state (visited_states b),
                         step_count := step_count b + 1,
                         current_direction := Some (ACTIONS ! action_idx)\<rparr>
              in (Inr (Position next_state), mark_dead_end b1)))"

text \<open>The candidates of the fallback exploration, each with its score.\<close>

definition move_score :: "enhanced_bot \<Rightarrow> nat \<Rightarrow> real" where
  "move_score b idx =
     (let new_state = move (state b) (ACTIONS ! idx);
          direction_change =
            (case current_direction b of None \<Rightarrow> True | Some cd \<Rightarrow> ACTIONS ! idx \<noteq> cd)
      in real_of_int (heuristic new_state (goal b)) * 0.5
         + (if new_state \<in> visited_states b then 50 else 0)
         + (if direction_change then 20 else 0))"

definition valid_actions :: "enhanced_bot \<Rightarrow> (nat \<times> pos \<times> real) list" where
  "valid_actions b =
     map (\<lambda>idx. (idx, move (state b) (ACTIONS ! idx), move_score b idx))
       (filter (\<lambda>idx. is_valid (maze b) (move (state b) (ACTIONS ! idx))
                      \<and> move (state b) (ACTIONS ! idx) \<notin> dead_ends b)
          [0..<length ACTIONS])"

fun best_action :: "nat \<times> pos \<times> real \<Rightarrow> (nat \<times> pos \<times> real) list \<Rightarrow> nat \<times> pos \<times> real" where
  "best_action a [] = a"
| "best_action a (b # bs) = best_action (if snd (snd b) < snd (snd a) then b else a) bs"

definition commit_explore ::
  "enhanced_bot \<Rightarrow> nat \<Rightarrow> pos \<Rightarrow> (py_error + step_result) \<times> enhanced_bot" where
  "commit_explore b action_idx next_state =
     (let (reward, b0) =
            (if next_state \<in> visited_states b then
               (if last_state b = Some next_state
                then (- 60, b\<lparr>backtrack_count := backtrack_count b + 1\<rparr>)
                else (- 30, b))
             else (real_of_int ((heuristic (state b) (goal b) - heuristic next_state (goal b)) * 15), b))
      in case update_q_table (q_table b0) (state b0) action_idx reward next_state of
           Inl e \<Rightarrow> (Inl e, b0)
         | Inr q \<Rightarrow>
             (let b1 = b0\<lparr>q_table := q,
                          last_state := Some (state b0),
                          state := next_state,
                          visited_states := insert next_state (visited_states b0),
                          step_count := step_count b0 + 1,
                          current_direction := Some (ACTIONS ! action_idx)\<rparr>
              in (Inr (Position next_state), mark_dead_end b1)))"

definition escape :: "enhanced_bot \<Rightarrow> (py_error + step_result) \<times> enhanced_bot" where
  "escape b =
     (let b1 = b\<lparr>dead_ends := insert (state b) (dead_ends b)\<rparr>
      in case List.find (is_valid (maze b1)) (map (move (state b1)) ACTIONS) of
           Some new_state \<Rightarrow>
             (Inr (Position new_state), b1\<lparr>state := new_state, step_count := step_count b1 + 1\<rparr>)
         | None \<Rightarrow> (Inr (Position (state b1)), b1))"

definition explore :: "enhanced_bot \<Rightarrow> (py_error + step_result) \<times> enhanced_bot" where
  "explore b =
     (case valid_actions b of
        [] \<Rightarrow> escape b
      | a # as \<Rightarrow> (case best_action a as of (action_idx, next_state, _) \<Rightarrow>
                     commit_explore b action_idx next_state))"

text \<open>
  \<open>EnhancedMazeBot.step\<close>, in its two parts: the stuck check (lines 356 to 369) and the
  move (lines 371 to 474); \<open>u\<close> is the draw of \<open>random.random()\<close>, made only when the
  hint is not empty.
\<close>

definition stuck_check :: "enhanced_bot \<Rightarrow> (py_error + step_result) \<times> enhanced_bot" where
  "stuck_check b =
     (let b1 = b\<lparr>as_start := start b, as_goal := goal b\<rparr>;
          (path, b2) = solver_solve b1
      in if path = [] then (Inr Regenerate, b2)
         else (Inr (Position (state b2)),
               b2\<lparr>q_table := scale_q 0.9 (q_table b2),
                  backtrack_count := 0, step_count := 0\<rparr>))"

definition navigate :: "real \<Rightarrow> enhanced_bot \<Rightarrow> (py_error + step_result) \<times> enhanced_bot" where
  "navigate u b =
     (let (optimal_actions, b1) = get_optimal_path b (state b)
      in if optimal_actions \<noteq> [] \<and> u < follow_astar_prob b1 then
           (case first_hint (maze b1) (dead_ends b1) (state b1) (take 3 optimal_actions) of
              Some (Inl e) \<Rightarrow> (Inl e, b1)
            | Some (Inr (action_idx, next_state)) \<Rightarrow> commit_hint b1 action_idx next_state
            | None \<Rightarrow> explore b1)
         else explore b1)"

definition enhanced_step :: "real \<Rightarrow> enhanced_bot \<Rightarrow> (py_error + step_result) \<times> enhanced_bot" where
  "enhanced_step u b = (if stuck b then stuck_check b else navigate u b)"

section \<open>Initial bots and example mazes\<close>

text \<open>
  \<open>MazeBot.__init__\<close> and \<open>EnhancedMazeBot.__init__\<close> for a game whose maze has its
  START cell at \<open>s\<close> and its GOAL cell at \<open>g\<close>, when no saved Q-table is found: the table
  is \<open>np.zeros\<close> of the shape of the maze with four actions.
\<close>

definition zeros :: "nat \<Rightarrow> nat \<Rightarrow> qtable" where
  "zeros h w = replicate h (replicate w (replicate (length ACTIONS) 0))"

definition new_maze_bot :: "grid \<Rightarrow> int \<Rightarrow> pos \<Rightarrow> pos \<Rightarrow> maze_bot" where
  "new_maze_bot m lvl s g =
     \<lparr>maze = m, q_table = zeros (height m) (width m), visit_counts = Map.empty, level = lvl,
      start = s, goal = g, state = s, visited_states = {}, backtrack_count = 0, step_count = 0,
      visited_counts = Map.empty, last_state = None\<rparr>"

definition new_enhanced_bot :: "grid \<Rightarrow> int \<Rightarrow> pos \<Rightarrow> pos \<Rightarrow> enhanced_bot" where
  "new_enhanced_bot m lvl s g =
     \<lparr>maze = m, q_table = zeros (height m) (width m), visit_counts = Map.empty, level = lvl,
      start = s, goal = g, state = s, visited_states = {}, backtrack_count = 0, step_count = 0,
      visited_counts = Map.empty, last_state = None,
      as_start = s, as_goal = g, as_path = [], a_star_cache = Map.empty,
      dead_ends = {}, current_direction = None\<rparr>"

definition maze_bottom :: grid where
  "maze_bottom = [[1, 1, 1, 1], [1, 1, 1, 1], [1, 2, 3, 1]]"

definition maze_corner :: grid where
  "maze_corner = [[2, 0, 1], [0, 0, 3]]"

definition maze_blocked :: grid where
  "maze_blocked = [[2, 0, 1, 3]]"

definition maze_detour :: grid where
  "maze_detour =
     [[0, 0, 2, 0],
      [0, 1, 1, 0],
      [0, 0, 0, 0],
      [0, 0, 1, 0],
      [0, 0, 0, 0],
      [0, 1, 1, 0],
      [0, 0, 3, 1]]"

section \<open>Notions used to state the properties\<close>

text \<open>
  A 4-connected wall-free path from \<open>s\<close> to \<open>g\<close>: a non-empty list of valid cells that
  starts at \<open>s\<close>, ends at \<open>g\<close>, and whose consecutive cells are one step apart.
\<close>

fun chain :: "pos list \<Rightarrow> bool" where
  "chain (a # b # ps) \<longleftrightarrow> heuristic a b = 1 \<and> chain (b # ps)"
| "chain _ \<longleftrightarrow> True"

definition is_path :: "grid \<Rightarrow> pos \<Rightarrow> pos \<Rightarrow> pos list \<Rightarrow> bool" where
  "is_path m s g ps \<longleftrightarrow>
     ps \<noteq> [] \<and> hd ps = s \<and> last ps = g \<and> list_all (is_valid m) ps \<and> chain ps"

text \<open>The Q-table has the shape of the maze, with four action values per cell.\<close>

definition q_fits :: "qtable \<Rightarrow> grid \<Rightarrow> bool" where
  "q_fits q m \<longleftrightarrow>
     length q = height m
     \<and> list_all (\<lambda>row. length row = width m \<and> list_all (\<lambda>r. length r = length ACTIONS) row) q"



text \<open>
  Bot states used as concrete inputs below: a bot that has walked from START to a
  neighbouring cell and has used up its \<open>MAX_STEPS\<close> steps, in a maze whose goal is
  walled off and in a maze with a way to the goal.
\<close>

definition bot_blocked :: enhanced_bot where
  "bot_blocked = (new_enhanced_bot maze_blocked 1 (0, 0) (0, 3))\<lparr>state := (0, 1), step_count := 20000\<rparr>"

definition bot_late :: enhanced_bot where
  "bot_late = (new_enhanced_bot maze_corner 1 (0, 0) (1, 2))\<lparr>state := (1, 0), step_count := 20000\<rparr>"

text \<open>
  What holds of the dead-end set and of the path cache in every state of a run. A cell
  enters \<open>dead_ends\<close> when the bot stands on it and it has exactly one valid neighbour
  and is not the goal (lines 409 to 410 and 460 to 461), or when each of its valid
  neighbours is already a dead end (line 464); the caller stops stepping at the goal.
  An entry of \<open>a_star_cache\<close> is the action sequence that the solver computed for its
  key, and the solver's goal is the bot's goal.
\<close>

definition dead_ends_justified :: "grid \<Rightarrow> pos \<Rightarrow> pos set \<Rightarrow> bool" where
  "dead_ends_justified m g de \<longleftrightarrow>
     g \<notin> de
     \<and> (\<forall>c\<in>de. count_valid_moves m c = 1
               \<or> (\<forall>d\<in>set ACTIONS. is_valid m (move c d) \<longrightarrow> move c d \<in> de))"

definition cache_fits :: "enhanced_bot \<Rightarrow> bool" where
  "cache_fits b \<longleftrightarrow>
     as_goal b = goal b
     \<and> (\<forall>p acts. a_star_cache b (p, goal b) = Some acts \<longrightarrow>
            acts = actions_of_path (solve (maze b) p (goal b)))"





text \<open>
  The invariant of the search loop of \<open>solve\<close>: the cells of the open set are pairwise
  different, not closed, and within the grid (or the start); every \<open>came_from\<close> link
  leads to a closed cell of smaller \<open>g_score\<close>; and no \<open>g_score\<close> exceeds the number of
  closed cells.
\<close>

definition reach_universe :: "grid \<Rightarrow> pos \<Rightarrow> pos set" where
  "reach_universe m s = insert s {p. in_bounds m p}"

definition open_cells :: "astar_state \<Rightarrow> pos set" where
  "open_cells st = set (map (\<lambda>it. snd (snd it)) (open_set st))"

definition astar_inv :: "grid \<Rightarrow> pos \<Rightarrow> astar_state \<Rightarrow> bool" where
  "astar_inv m s st \<longleftrightarrow>
     distinct (map (\<lambda>it. snd (snd it)) (open_set st))
     \<and> open_cells st \<inter> closed_set st = {}
     \<and> open_cells st \<subseteq> reach_universe m s
     \<and> closed_set st \<subseteq> reach_universe m s
     \<and> (\<forall>p c. came_from st p = Some c \<longrightarrow>
            c \<in> closed_set st \<and> (\<exists>x y. g_score st p = Some x \<and> g_score st c = Some y \<and> 0 \<le> y \<and> y < x))
     \<and> (\<forall>p x. g_score st p = Some x \<longrightarrow> 0 \<le> x \<and> x \<le> int (card (closed_set st)))"

definition relax_inv :: "grid \<Rightarrow> pos \<Rightarrow> pos \<Rightarrow> astar_state \<Rightarrow> bool" where
  "relax_inv m s cur st \<longleftrightarrow>
     astar_inv m s st \<and> cur \<in> closed_set st
     \<and> (\<forall>x. g_score st cur = Some x \<longrightarrow> x < int (card (closed_set st)))"

text \<open>
  The properties of a bot that every state of a run has (lemmas \<open>run_inv_new\<close> and
  \<open>run_inv_step\<close> below): the Q-table has the shape of the maze, the cache and the
  dead-end set are as described above, and the position is joined to START by a walk of
  valid cells.
\<close>

definition run_inv :: "enhanced_bot \<Rightarrow> bool" where
  "run_inv b \<longleftrightarrow>
     q_fits (q_table b) (maze b)
     \<and> cache_fits b
     \<and> dead_ends_justified (maze b) (goal b) (dead_ends b)
     \<and> (\<exists>ps. is_path (maze b) (start b) (state b) ps)"

text \<open>
  The second invariant of the search loop: the start has no \<open>came_from\<close> link, every
  link joins a valid cell to a neighbour, every other cell that was ever in the open set
  has a link, and the cells with a \<open>g_score\<close> are those of the open and the closed set.
  \<open>closed_under\<close>: every valid neighbour of a closed cell is open or closed.
\<close>

definition seen :: "astar_state \<Rightarrow> pos set" where
  "seen st = open_cells st \<union> closed_set st"

definition path_inv :: "grid \<Rightarrow> pos \<Rightarrow> astar_state \<Rightarrow> bool" where
  "path_inv m s st \<longleftrightarrow>
     came_from st s = None
     \<and> (\<forall>p c. came_from st p = Some c \<longrightarrow> (\<exists>d\<in>set ACTIONS. p = move c d) \<and> is_valid m p)
     \<and> (\<forall>p. p \<in> seen st \<longrightarrow> p = s \<or> came_from st p \<noteq> None)
     \<and> (\<forall>p. p \<in> seen st \<longleftrightarrow> g_score st p \<noteq> None)
     \<and> s \<in> seen st"

definition closed_under :: "grid \<Rightarrow> astar_state \<Rightarrow> bool" where
  "closed_under m st \<longleftrightarrow>
     (\<forall>c\<in>closed_set st. \<forall>d\<in>set ACTIONS. is_valid m (move c d) \<longrightarrow> move c d \<in> seen st)"

definition start_first :: "pos \<Rightarrow> astar_state \<Rightarrow> bool" where
  "start_first s st \<longleftrightarrow> s \<in> closed_set st \<or> open_cells st = {s}"

section \<open>MazeGenerator\<close>

text \<open>
  The generator draws from Python's \<open>random\<close> module. The model takes the sequence of
  raw draws as an input: a stream of naturals and the number of draws made so far. A
  call \<open>randrange(n)\<close>, \<open>randint(0, n - 1)\<close> or \<open>choice\<close> on a list of length \<open>n\<close> takes the
  next draw modulo \<open>n\<close>.
\<close>

type_synonym rng = "(nat \<Rightarrow> nat) \<times> nat"

definition draw :: "nat \<Rightarrow> rng \<Rightarrow> nat \<times> rng" where
  "draw n r = (fst r (snd r) mod n, (fst r, Suc (snd r)))"

definition set_cell :: "grid \<Rightarrow> pos \<Rightarrow> nat \<Rightarrow> grid" where
  "set_cell m p v = m[nat (fst p) := (m ! nat (fst p))[nat (snd p) := v]]"

definition ones :: "nat \<Rightarrow> nat \<Rightarrow> grid" where
  "ones h w = replicate h (replicate w 1)"

text \<open>\<open>self.directions\<close>: left, down, right, up.\<close>

definition directions :: "pos list" where
  "directions = [(0, -1), (1, 0), (0, 1), (-1, 0)]"

text \<open>The order in which the carving algorithms look at the lattice neighbours.\<close>

definition lattice_steps :: "pos list" where
  "lattice_steps = [(0, 1), (1, 0), (0, -1), (-1, 0)]"

definition in_lattice :: "nat \<Rightarrow> nat \<Rightarrow> pos \<Rightarrow> bool" where
  "in_lattice ch cw c \<longleftrightarrow> 0 \<le> fst c \<and> fst c < int ch \<and> 0 \<le> snd c \<and> snd c < int cw"

text \<open>The grid position of a lattice cell, and of the wall between it and a neighbour.\<close>

definition cell_pos :: "pos \<Rightarrow> pos" where
  "cell_pos c = (fst c * 2 + 1, snd c * 2 + 1)"

definition wall_pos :: "pos \<Rightarrow> pos \<Rightarrow> pos" where
  "wall_pos c d = (fst c * 2 + 1 + fst d, snd c * 2 + 1 + snd d)"

subsection \<open>Growing-tree depth-first search\<close>

definition unvisited_neighbors :: "nat \<Rightarrow> nat \<Rightarrow> pos set \<Rightarrow> pos \<Rightarrow> (pos \<times> pos) list" where
  "unvisited_neighbors ch cw visited c =
     map (\<lambda>d. (move c d, d))
       (filter (\<lambda>d. in_lattice ch cw (move c d) \<and> move c d \<notin> visited) lattice_steps)"

definition unvisited_count :: "nat \<Rightarrow> nat \<Rightarrow> pos set \<Rightarrow> nat" where
  "unvisited_count ch cw visited = card ({c. in_lattice ch cw c} - visited)"

function dfs_loop :: "nat \<Rightarrow> nat \<Rightarrow> grid \<Rightarrow> pos set \<Rightarrow> pos list \<Rightarrow> rng \<Rightarrow> grid \<times> rng" where
  "dfs_loop ch cw m visited stack r =
     (if stack = [] then (m, r)
      else
        (let c = last stack;
             neighbors = unvisited_neighbors ch cw visited c
         in if neighbors \<noteq> [] then
              (let (k, r1) = draw (length neighbors) r;
                   n = fst (neighbors ! k);
                   d = snd (neighbors ! k);
                   m1 = set_cell m (wall_pos c d) 0;
                   m2 = set_cell m1 (cell_pos n) 0
               in dfs_loop ch cw m2 (insert n visited) (stack @ [n]) r1)
            else dfs_loop ch cw m visited (butlast stack) r))"
  by pat_completeness auto

termination
proof (relation "measures [\<lambda>(ch, cw, m, visited, stack, r). unvisited_count ch cw visited,
                           \<lambda>(ch, cw, m, visited, stack, r). length stack]", goal_cases)
  case 1
  show ?case by simp
next
  case (2 ch cw m visited stack r c neighbors x k r1 n d m1 m2)
  have fin: "finite {c. in_lattice ch cw c}"
  proof (rule finite_subset)
    show "{c. in_lattice ch cw c} \<subseteq> {0..<int ch} \<times> {0..<int cw}"
      by (auto simp add: in_lattice_def)
  qed simp
  have "k < length neighbors" using 2(4,5,6) by (auto simp add: draw_def)
  then have "neighbors ! k \<in> set neighbors" by simp
  then have "in_lattice ch cw n \<and> n \<notin> visited"
    unfolding 2(3) 2(7) by (auto simp add: unvisited_neighbors_def)
  then have "{c. in_lattice ch cw c} - insert n visited \<subset> {c. in_lattice ch cw c} - visited"
    by auto
  then have "unvisited_count ch cw (insert n visited) < unvisited_count ch cw visited"
    unfolding unvisited_count_def by (rule psubset_card_mono[rotated]) (simp add: fin)
  then show ?case by simp
next
  case (3 ch cw m visited stack r c neighbors)
  then show ?case by simp
qed

text \<open>
  \<open>_depth_first_search\<close>. \<open>randrange(0)\<close> raises ValueError, which happens when the
  lattice has no row or no column.
\<close>

definition depth_first_search :: "nat \<Rightarrow> nat \<Rightarrow> grid \<Rightarrow> rng \<Rightarrow> py_error + grid \<times> rng" where
  "depth_first_search h w m r =
     (let cell_height = (h - 1) div 2;
          cell_width = (w - 1) div 2
      in if cell_height = 0 \<or> cell_width = 0 then Inl ValueError
         else
           (let (start_y, r1) = draw cell_height r;
                (start_x, r2) = draw cell_width r1;
                c = (int start_y, int start_x)
            in Inr (dfs_loop cell_height cell_width (set_cell m (cell_pos c) 0) {c} [c] r2)))"

subsection \<open>Entry and exit\<close>

definition interior :: "nat \<Rightarrow> nat \<Rightarrow> pos \<Rightarrow> bool" where
  "interior h w p \<longleftrightarrow> 0 < fst p \<and> fst p < int h - 1 \<and> 0 < snd p \<and> snd p < int w - 1"

definition on_border :: "nat \<Rightarrow> nat \<Rightarrow> pos \<Rightarrow> bool" where
  "on_border h w p \<longleftrightarrow> fst p = 0 \<or> fst p = int h - 1 \<or> snd p = 0 \<or> snd p = int w - 1"

text \<open>The number of steps a ray can still make inside the grid, by direction.\<close>

definition ray_room :: "nat \<Rightarrow> nat \<Rightarrow> nat \<Rightarrow> pos \<Rightarrow> nat" where
  "ray_room h w dir p =
     (if dir = 0 then nat (snd p)
      else if dir = 1 then nat (int h - 1 - fst p)
      else if dir = 2 then nat (int w - 1 - snd p)
      else nat (fst p))"

text \<open>
  The loop that traces from a cell towards an edge (lines 245 to 250): \<open>None\<close> when it
  hits a wall, otherwise the cell where it left the interior. The direction is an index
  into \<open>directions\<close>.
\<close>

function trace_edge :: "nat \<Rightarrow> nat \<Rightarrow> grid \<Rightarrow> nat \<Rightarrow> pos \<Rightarrow> pos option" where
  "trace_edge h w m dir p =
     (if dir < length directions \<and> interior h w p then
        (let p1 = move p (directions ! dir)
         in if cell m p1 = 1 then None else trace_edge h w m dir p1)
      else Some p)"
  by pat_completeness auto
termination
proof (relation "measure (\<lambda>(h, w, m, dir, p). ray_room h w dir p)", goal_cases)
  case 1
  show ?case by simp
next
  case (2 h w m dir p p1)
  have "dir = 0 \<or> dir = 1 \<or> dir = 2 \<or> dir = 3" using 2(1) by (auto simp add: directions_def)
  then show ?case using 2(1,2)
    by (auto simp add: ray_room_def interior_def move_def directions_def)
qed

text \<open>The loop that carves from a cell to the edge (lines 269 to 272 and 306 to 309).\<close>

function carve_ray :: "nat \<Rightarrow> nat \<Rightarrow> grid \<Rightarrow> nat \<Rightarrow> pos \<Rightarrow> grid \<times> pos" where
  "carve_ray h w m dir p =
     (if dir < length directions \<and> interior h w p then
        (let p1 = move p (directions ! dir)
         in carve_ray h w (set_cell m p1 0) dir p1)
      else (m, p))"
  by pat_completeness auto
termination
proof (relation "measure (\<lambda>(h, w, m, dir, p). ray_room h w dir p)", goal_cases)
  case 1
  show ?case by simp
next
  case (2 h w m dir p p1)
  have "dir = 0 \<or> dir = 1 \<or> dir = 2 \<or> dir = 3" using 2(1) by (auto simp add: directions_def)
  then show ?case using 2(1,2)
    by (auto simp add: ray_room_def interior_def move_def directions_def)
qed

definition path_cells_of :: "nat \<Rightarrow> nat \<Rightarrow> grid \<Rightarrow> pos list" where
  "path_cells_of h w m =
     concat (map (\<lambda>y. map (\<lambda>x. (int y, int x)) (filter (\<lambda>x. m ! y ! x = 0) [1..<w - 1]))
                 [1..<h - 1])"

text \<open>
  The fallback of lines 216 to 221 when no path cell exists: every odd interior row and
  every odd interior column is opened.
\<close>

definition open_lattice_lines :: "nat \<Rightarrow> nat \<Rightarrow> grid \<Rightarrow> grid" where
  "open_lattice_lines h w m =
     map (\<lambda>y. map (\<lambda>x. if 1 \<le> y \<and> y < h - 1 \<and> 1 \<le> x \<and> x < w - 1 \<and> (odd y \<or> odd x)
                          then 0 else m ! y ! x)
                    [0..<length (m ! y)])
         [0..<length m]"

type_synonym edge_path = "pos \<times> pos \<times> nat"

definition find_edge_paths :: "nat \<Rightarrow> nat \<Rightarrow> grid \<Rightarrow> pos list \<Rightarrow> edge_path list" where
  "find_edge_paths h w m valid_cells =
     concat (map (\<lambda>c. concat (map (\<lambda>dir.
                    (case trace_edge h w m dir c of
                       None \<Rightarrow> []
                     | Some e \<Rightarrow> if on_border h w e then [(c, e, dir)] else []))
                  [0..<length directions]))
             valid_cells)"

text \<open>Lines 319 to 323: the outer border is closed except at the entry and the exit.\<close>

definition close_border :: "nat \<Rightarrow> nat \<Rightarrow> grid \<Rightarrow> pos \<Rightarrow> pos \<Rightarrow> grid" where
  "close_border h w m entry_point exit_point =
     map (\<lambda>y. map (\<lambda>x. if (y = 0 \<or> y = h - 1 \<or> x = 0 \<or> x = w - 1)
                             \<and> (int y, int x) \<noteq> entry_point \<and> (int y, int x) \<noteq> exit_point
                          then 1 else m ! y ! x)
                    [0..<w])
         [0..<h]"

text \<open>
  \<open>_create_entry_exit\<close>. The result is the maze with the entry and the exit point, or
  the IndexError of \<open>edge_paths[0]\<close> when there is no cell to start from.
\<close>

definition create_entry_exit ::
  "nat \<Rightarrow> nat \<Rightarrow> grid \<Rightarrow> rng \<Rightarrow> py_error + (grid \<times> pos \<times> pos) \<times> rng" where
  "create_entry_exit h w m0 r =
     (let cells0 = path_cells_of h w m0;
          m = (if cells0 = [] then open_lattice_lines h w m0 else m0);
          path_cells = (if cells0 = [] then path_cells_of h w m else cells0);
          center_y = int (h div 2);
          center_x = int (w div 2);
          buffer = int (max 2 (min h w div 10));
          near = filter (\<lambda>c. \<bar>fst c - center_y\<bar> > buffer \<or> \<bar>snd c - center_x\<bar> > buffer) path_cells;
          valid_cells = (if near = [] then path_cells else near);
          found = find_edge_paths h w m valid_cells;
          (m1, edge_paths, r1) =
            (if found = [] \<and> valid_cells \<noteq> [] then
               (let (k, ra) = draw (length valid_cells) r;
                    c = valid_cells ! k;
                    (dir, rb) = draw 4 ra;
                    (mc, e) = carve_ray h w m dir c
                in (mc, [(c, e, dir)], rb))
             else (m, found, r))
      in if 2 \<le> length edge_paths then
           (let sorted_paths = sort_key (\<lambda>p. snd (snd p)) edge_paths;
                entry_path = hd sorted_paths;
                exit_path =
                  (case List.find (\<lambda>p. \<bar>int (snd (snd p)) - int (snd (snd entry_path))\<bar> = 2)
                          (rev sorted_paths) of
                     Some p \<Rightarrow> p
                   | None \<Rightarrow> last sorted_paths);
                entry_point = fst (snd entry_path);
                exit_point = fst (snd exit_path);
                m2 = set_cell (set_cell m1 entry_point 0) exit_point 0
            in Inr ((close_border h w m2 entry_point exit_point, entry_point, exit_point), r1))
         else
           (case edge_paths of
              [] \<Rightarrow> Inl IndexError
            | (c, e, dir) # _ \<Rightarrow>
                (let opposite_dir = (dir + 2) mod 4;
                     (mo, x) = carve_ray h w m1 opposite_dir c;
                     m2 = set_cell (set_cell mo e 0) x 0
                 in Inr ((close_border h w m2 e x, e, x), r1))))"

subsection \<open>Validation\<close>

text \<open>
  \<open>_validate_maze\<close>: breadth-first search from the entry over the cells of code 0. One
  pass of the inner loop over \<open>self.directions\<close> adds the unseen open neighbours to the
  visited set and to the queue.
\<close>

definition bfs_visit :: "grid \<Rightarrow> pos \<Rightarrow> pos set \<times> pos list \<Rightarrow> pos \<Rightarrow> pos set \<times> pos list" where
  "bfs_visit m p vq d =
     (let n = move p d
      in if in_bounds m n \<and> cell m n = 0 \<and> n \<notin> fst vq
         then (insert n (fst vq), snd vq @ [n]) else vq)"

definition bfs_room :: "grid \<Rightarrow> pos set \<Rightarrow> nat" where
  "bfs_room m visited = card ({p. in_bounds m p} - visited)"

function bfs_loop :: "grid \<Rightarrow> pos \<Rightarrow> pos set \<Rightarrow> pos list \<Rightarrow> bool" where
  "bfs_loop m exit_point visited queue =
     (case queue of
        [] \<Rightarrow> False
      | p # rest_queue \<Rightarrow>
          if p = exit_point then True
          else (let vq = fold (\<lambda>d vq. bfs_visit m p vq d) directions (visited, rest_queue)
                in bfs_loop m exit_point (fst vq) (snd vq)))"
  by pat_completeness auto
termination
proof (relation "measures [\<lambda>(m, e, visited, queue). bfs_room m visited,
                           \<lambda>(m, e, visited, queue). length queue]", goal_cases)
  case 1
  show ?case by simp
next
  case (2 m exit_point visited queue p rest_queue vq)
  have fin: "finite {p. in_bounds m p}"
  proof (rule finite_subset)
    show "{p. in_bounds m p} \<subseteq> {0..<int (height m)} \<times> {0..<int (width m)}"
      by (auto simp add: in_bounds_def)
  qed simp
  have one: "bfs_visit m p a d = a \<or> bfs_room m (fst (bfs_visit m p a d)) < bfs_room m (fst a)"
    for a d
  proof (cases "in_bounds m (move p d) \<and> cell m (move p d) = 0 \<and> move p d \<notin> fst a")
    case True
    then have "{p. in_bounds m p} - insert (move p d) (fst a) \<subset> {p. in_bounds m p} - fst a"
      by auto
    then have "card ({p. in_bounds m p} - insert (move p d) (fst a)) < card ({p. in_bounds m p} - fst a)"
      by (rule psubset_card_mono[rotated]) (simp add: fin)
    then show ?thesis using True by (simp add: bfs_visit_def bfs_room_def Let_def)
  next
    case False
    then show ?thesis by (auto simp add: bfs_visit_def Let_def)
  qed
  have many: "fold (\<lambda>d a. bfs_visit m p a d) ds a = a
              \<or> bfs_room m (fst (fold (\<lambda>d a. bfs_visit m p a d) ds a)) < bfs_room m (fst a)"
    for ds a
  proof (induction ds arbitrary: a)
    case Nil
    show ?case by simp
  next
    case (Cons d ds)
    show ?case using one[of a d] Cons[of "bfs_visit m p a d"] by auto
  qed
  show ?case using many[of directions "(visited, rest_queue)"] 2 by (auto simp add: case_prod_beta)
qed

definition validate_maze :: "grid \<Rightarrow> pos \<Rightarrow> pos \<Rightarrow> bool" where
  "validate_maze m entry_point exit_point =
     (if cell m entry_point \<noteq> 0 \<or> cell m exit_point \<noteq> 0 then False
      else bfs_loop m exit_point {entry_point} [entry_point])"

subsection \<open>Randomized Kruskal\<close>

text \<open>
  The dictionaries \<open>parent\<close> and \<open>rank\<close> have an entry for every lattice cell and are
  read at lattice cells only; they are modelled as functions. \<open>find\<close> is recursive along
  the parent links and compresses the path on the way back; a call that does not return
  has the value \<open>None\<close>.
\<close>

partial_function (option) uf_find :: "(pos \<Rightarrow> pos) \<Rightarrow> pos \<Rightarrow> ((pos \<Rightarrow> pos) \<times> pos) option" where
  "uf_find parent node =
     (if parent node \<noteq> node
      then Option.bind (uf_find parent (parent node))
             (\<lambda>res. Some ((fst res)(node := snd res), snd res))
      else Some (parent, parent node))"

declare uf_find.simps [code]

definition uf_union ::
  "(pos \<Rightarrow> pos) \<Rightarrow> (pos \<Rightarrow> nat) \<Rightarrow> pos \<Rightarrow> pos \<Rightarrow> (bool \<times> (pos \<Rightarrow> pos) \<times> (pos \<Rightarrow> nat)) option" where
  "uf_union parent rank node1 node2 =
     Option.bind (uf_find parent node1) (\<lambda>res1.
     Option.bind (uf_find (fst res1) node2) (\<lambda>res2.
       (let root1 = snd res1; root2 = snd res2; parent2 = fst res2
        in if root1 \<noteq> root2 then
             (if rank root1 < rank root2 then Some (True, parent2(root1 := root2), rank)
              else Some (True, parent2(root2 := root1),
                         if rank root1 = rank root2 then rank(root1 := rank root1 + 1) else rank))
           else Some (False, parent2, rank))))"

definition lattice_cells :: "nat \<Rightarrow> nat \<Rightarrow> pos list" where
  "lattice_cells ch cw = concat (map (\<lambda>y. map (\<lambda>x. (int y, int x)) [0..<cw]) [0..<ch])"

definition all_walls :: "nat \<Rightarrow> nat \<Rightarrow> (pos \<times> pos) list" where
  "all_walls ch cw =
     concat (map (\<lambda>c. (if snd c < int cw - 1 then [(c, (fst c, snd c + 1))] else [])
                      @ (if fst c < int ch - 1 then [(c, (fst c + 1, snd c))] else []))
                 (lattice_cells ch cw))"

text \<open>
  \<open>random.shuffle\<close>: for \<open>i\<close> from the last index down to 1, entry \<open>i\<close> is swapped with
  entry \<open>randbelow(i + 1)\<close>.
\<close>

fun shuffle_from :: "nat \<Rightarrow> 'a list \<Rightarrow> rng \<Rightarrow> 'a list \<times> rng" where
  "shuffle_from 0 xs r = (xs, r)"
| "shuffle_from (Suc i) xs r =
     (let (j, r1) = draw (Suc i + 1) r
      in shuffle_from i (xs[Suc i := xs ! j, j := xs ! Suc i]) r1)"

definition shuffle :: "'a list \<Rightarrow> rng \<Rightarrow> 'a list \<times> rng" where
  "shuffle xs r = shuffle_from (length xs - 1) xs r"

fun kruskal_walls ::
  "grid \<Rightarrow> (pos \<Rightarrow> pos) \<Rightarrow> (pos \<Rightarrow> nat) \<Rightarrow> (pos \<times> pos) list \<Rightarrow> grid option" where
  "kruskal_walls m parent rank [] = Some m"
| "kruskal_walls m parent rank ((c1, c2) # walls) =
     (case uf_union parent rank c1 c2 of
        None \<Rightarrow> None
      | Some (joined, parent1, rank1) \<Rightarrow>
          kruskal_walls
            (if joined then set_cell m (wall_pos c1 (fst c2 - fst c1, snd c2 - snd c1)) 0 else m)
            parent1 rank1 walls)"

definition kruskal_algorithm :: "nat \<Rightarrow> nat \<Rightarrow> grid \<Rightarrow> rng \<Rightarrow> (grid \<times> rng) option" where
  "kruskal_algorithm h w m r =
     (let cell_height = (h - 1) div 2;
          cell_width = (w - 1) div 2;
          m1 = fold (\<lambda>c m. set_cell m (cell_pos c) 0) (lattice_cells cell_height cell_width) m;
          (walls, r1) = shuffle (all_walls cell_height cell_width) r
      in map_option (\<lambda>m2. (m2, r1)) (kruskal_walls m1 (\<lambda>c. c) (\<lambda>c. 0) walls))"

subsection \<open>Wilson's algorithm\<close>

text \<open>
  The random walk from an unvisited cell until it meets a visited one; a step out of the
  lattice is drawn again, a step onto the recorded path erases the loop.
\<close>

partial_function (option) random_walk ::
  "nat \<Rightarrow> nat \<Rightarrow> pos set \<Rightarrow> pos \<Rightarrow> pos list \<Rightarrow> rng \<Rightarrow> (pos list \<times> rng) option" where
  "random_walk ch cw visited c path r =
     (if c \<in> visited then Some (path, r)
      else if \<not> in_lattice ch cw (move c (lattice_steps ! fst (draw 4 r)))
      then random_walk ch cw visited c path (snd (draw 4 r))
      else random_walk ch cw visited (move c (lattice_steps ! fst (draw 4 r)))
             (if move c (lattice_steps ! fst (draw 4 r)) \<in> set path
              then takeWhile (\<lambda>p. p \<noteq> move c (lattice_steps ! fst (draw 4 r))) path
                   @ [move c (lattice_steps ! fst (draw 4 r))]
              else path @ [move c (lattice_steps ! fst (draw 4 r))])
             (snd (draw 4 r)))"

declare random_walk.simps [code]

fun carve_path :: "grid \<Rightarrow> pos set \<Rightarrow> pos list \<Rightarrow> grid \<times> pos set" where
  "carve_path m visited (c # n # ps) =
     carve_path
       (set_cell (set_cell (set_cell m (cell_pos c) 0) (cell_pos n) 0)
          (wall_pos c (fst n - fst c, snd n - snd c)) 0)
       (insert c visited) (n # ps)"
| "carve_path m visited ps = (m, visited)"

partial_function (option) wilson_loop ::
  "nat \<Rightarrow> nat \<Rightarrow> grid \<Rightarrow> pos set \<Rightarrow> rng \<Rightarrow> (grid \<times> rng) option" where
  "wilson_loop ch cw m visited r =
     (if filter (\<lambda>c. c \<notin> visited) (lattice_cells ch cw) = [] then Some (m, r)
      else Option.bind
             (random_walk ch cw visited
                (filter (\<lambda>c. c \<notin> visited) (lattice_cells ch cw)
                   ! fst (draw (length (filter (\<lambda>c. c \<notin> visited) (lattice_cells ch cw))) r))
                [filter (\<lambda>c. c \<notin> visited) (lattice_cells ch cw)
                   ! fst (draw (length (filter (\<lambda>c. c \<notin> visited) (lattice_cells ch cw))) r)]
                (snd (draw (length (filter (\<lambda>c. c \<notin> visited) (lattice_cells ch cw))) r)))
             (\<lambda>res. wilson_loop ch cw (fst (carve_path m visited (fst res)))
                      (snd (carve_path m visited (fst res))) (snd res)))"

declare wilson_loop.simps [code]

definition wilson_algorithm :: "nat \<Rightarrow> nat \<Rightarrow> grid \<Rightarrow> rng \<Rightarrow> (py_error + grid \<times> rng) option" where
  "wilson_algorithm h w m r =
     (let cell_height = (h - 1) div 2;
          cell_width = (w - 1) div 2
      in if cell_height = 0 \<or> cell_width = 0 then Some (Inl ValueError)
         else
           (let (y, r1) = draw cell_height r;
                (x, r2) = draw cell_width r1;
                c = (int y, int x)
            in map_option Inr (wilson_loop cell_height cell_width (set_cell m (cell_pos c) 0) {c} r2)))"

subsection \<open>generate\_maze\<close>

text \<open>
  One construction: the maze is reset to walls, carved by the chosen algorithm, and given
  its entry and exit. \<open>generate_maze\<close> validates the result and starts over, with the
  draws that follow, when the validation fails.
\<close>

type_synonym generated = "(grid \<times> pos \<times> pos) \<times> rng"

definition construct :: "nat \<Rightarrow> nat \<Rightarrow> string \<Rightarrow> rng \<Rightarrow> (py_error + generated) option" where
  "construct h w algorithm r =
     (let carved =
            (if algorithm = ''dfs'' then Some (depth_first_search h w (ones h w) r)
             else if algorithm = ''kruskal'' then map_option Inr (kruskal_algorithm h w (ones h w) r)
             else if algorithm = ''wilson'' then wilson_algorithm h w (ones h w) r
             else Some (Inl ValueError))
      in map_option
           (\<lambda>res. case res of
                     Inl e \<Rightarrow> Inl e
                   | Inr (m, r1) \<Rightarrow> create_entry_exit h w m r1)
           carved)"

definition validated :: "py_error + generated \<Rightarrow> bool" where
  "validated res = (case res of Inl e \<Rightarrow> True | Inr ((m, a, b), r) \<Rightarrow> validate_maze m a b)"

definition draws_left :: "py_error + generated \<Rightarrow> rng \<Rightarrow> rng" where
  "draws_left res r = (case res of Inl e \<Rightarrow> r | Inr (g, r1) \<Rightarrow> r1)"

partial_function (option) generate_maze ::
  "nat \<Rightarrow> nat \<Rightarrow> string \<Rightarrow> rng \<Rightarrow> (py_error + generated) option" where
  "generate_maze h w algorithm r =
     Option.bind (construct h w algorithm r)
       (\<lambda>res. if validated res then Some res
               else generate_maze h w algorithm (draws_left res r))"

declare generate_maze.simps [code]

text \<open>\<open>MazeGenerator(width, height, algorithm).generate_maze()\<close>: even sizes are raised by one.\<close>

definition odd_size :: "nat \<Rightarrow> nat" where
  "odd_size n = (if n mod 2 = 1 then n else n + 1)"

definition new_generate_maze :: "nat \<Rightarrow> nat \<Rightarrow> string \<Rightarrow> rng \<Rightarrow> (py_error + generated) option" where
  "new_generate_maze wd ht algorithm r =
     generate_maze (odd_size ht) (odd_size wd) algorithm r"

section \<open>AdaptiveMazeGame.generate\_maze\<close>

text \<open>
  The game builds a maze with the generator, writes START at the centre, collects the
  open cells of the ring next to the border, keeps those with at least two open
  neighbours, and writes GOAL at one of them, drawn at random, if there is any.
\<close>

definition possible_exits :: "nat \<Rightarrow> nat \<Rightarrow> grid \<Rightarrow> pos list" where
  "possible_exits wd ht m =
     concat (map (\<lambda>col. (if m ! 1 ! col = 0 then [(1, int col)] else [])
                        @ (if m ! (ht - 2) ! col = 0 then [(int ht - 2, int col)] else []))
                 [1..<wd - 1])
     @ concat (map (\<lambda>row. (if m ! row ! 1 = 0 then [(int row, 1)] else [])
                          @ (if m ! row ! (wd - 2) = 0 then [(int row, int wd - 2)] else []))
                   [1..<ht - 1])"

definition open_paths :: "nat \<Rightarrow> nat \<Rightarrow> grid \<Rightarrow> pos \<Rightarrow> nat" where
  "open_paths wd ht m e =
     length (filter (\<lambda>d. 0 \<le> fst (move e d) \<and> fst (move e d) < int ht
                          \<and> 0 \<le> snd (move e d) \<and> snd (move e d) < int wd
                          \<and> cell m (move e d) = 0)
               ACTIONS)"

definition place_start_goal :: "nat \<Rightarrow> nat \<Rightarrow> grid \<Rightarrow> rng \<Rightarrow> grid \<times> rng" where
  "place_start_goal wd ht m r =
     (let m1 = set_cell m (int (ht div 2), int (wd div 2)) START;
          valid_exits = filter (\<lambda>e. 2 \<le> open_paths wd ht m1 e)
                          (possible_exits wd ht m1)
      in if valid_exits \<noteq> [] then
           (let (k, r1) = draw (length valid_exits) r
            in (set_cell m1 (valid_exits ! k) GOAL, r1))
         else (m1, r))"

definition adaptive_generate_maze ::
  "nat \<Rightarrow> nat \<Rightarrow> string \<Rightarrow> rng \<Rightarrow> (py_error + grid \<times> rng) option" where
  "adaptive_generate_maze wd ht algorithm r =
     map_option
       (\<lambda>res. case res of
                 Inl e \<Rightarrow> Inl e
               | Inr ((m, a, b), r1) \<Rightarrow> Inr (place_start_goal wd ht m r1))
       (new_generate_maze wd ht
          (if algorithm \<in> {''dfs'', ''kruskal'', ''wilson''} then algorithm else ''dfs'') r)"

text \<open>A sequence of draws: 1 at the 10th and the 31st draw, 2 at the 12th, 0 elsewhere.\<close>

definition pillar_draws :: "nat \<Rightarrow> nat" where
  "pillar_draws i = (if i = 9 then 1 else if i = 11 then 2 else if i = 30 then 1 else 0)"

text \<open>The maze that the game builds from these draws, for width and height 13.\<close>

definition maze_pillar :: grid where
  "maze_pillar =
     [[1, 1, 1, 1, 1, 1, 1, 1, 1, 1, 1, 1, 1],
      [0, 3, 0, 0, 0, 0, 0, 0, 0, 0, 0, 0, 0],
      [1, 1, 1, 1, 1, 1, 1, 1, 1, 1, 1, 0, 1],
      [1, 0, 0, 0, 0, 0, 0, 0, 0, 0, 1, 0, 1],
      [1, 1, 1, 1, 1, 0, 1, 0, 1, 1, 1, 0, 1],
      [1, 0, 0, 0, 0, 0, 1, 0, 1, 0, 0, 0, 1],
      [1, 0, 1, 1, 1, 1, 2, 1, 1, 0, 1, 1, 1],
      [1, 0, 0, 0, 0, 0, 1, 0, 0, 0, 1, 0, 1],
      [1, 1, 1, 1, 1, 0, 1, 0, 1, 1, 1, 0, 1],
      [1, 0, 0, 0, 0, 0, 1, 0, 0, 0, 0, 0, 1],
      [1, 0, 1, 1, 1, 1, 1, 1, 1, 1, 1, 0, 1],
      [1, 0, 0, 0, 0, 0, 0, 0, 0, 0, 0, 0, 1],
      [1, 1, 1, 1, 1, 1, 1, 1, 1, 1, 1, 1, 1]]"

section \<open>The solver returns\<close>

lemma finite_reach_universe: "finite (reach_universe m s)"
proof -
  have "{p. in_bounds m p} \<subseteq> {0..<int (height m)} \<times> {0..<int (width m)}"
    by (auto simp add: in_bounds_def)
  then have "finite {p. in_bounds m p}" by (rule finite_subset) simp
  then show ?thesis by (simp add: reach_universe_def)
qed

lemma card_reach_universe: "card (reach_universe m s) \<le> height m * width m + 1"
proof -
  have sub: "{p. in_bounds m p} \<subseteq> {0..<int (height m)} \<times> {0..<int (width m)}"
    by (auto simp add: in_bounds_def)
  have "card {p. in_bounds m p} \<le> card ({0..<int (height m)} \<times> {0..<int (width m)})"
    by (rule card_mono[OF _ sub]) simp
  then have "card {p. in_bounds m p} \<le> height m * width m" by (simp add: card_cartesian_product)
  moreover have "card (reach_universe m s) \<le> Suc (card {p. in_bounds m p})"
    unfolding reach_universe_def by (rule card_insert_le_m1) simp_all
  ultimately show ?thesis by simp
qed

lemma astar_invD:
  assumes "astar_inv m s st"
  shows "distinct (map (\<lambda>it. snd (snd it)) (open_set st))"
    and "open_cells st \<inter> closed_set st = {}"
    and "open_cells st \<subseteq> reach_universe m s"
    and "closed_set st \<subseteq> reach_universe m s"
    and "\<And>p c. came_from st p = Some c \<Longrightarrow>
            c \<in> closed_set st \<and> (\<exists>x y. g_score st p = Some x \<and> g_score st c = Some y \<and> 0 \<le> y \<and> y < x)"
    and "\<And>p x. g_score st p = Some x \<Longrightarrow> 0 \<le> x \<and> x \<le> int (card (closed_set st))"
  using assms unfolding astar_inv_def by blast+

lemma relax_preserves:
  assumes "relax_inv m s cur st"
  shows "relax_inv m s cur (relax m g cur d st)"
proof -
  let ?nb = "move cur d"
  from assms have inv: "astar_inv m s st" and cc: "cur \<in> closed_set st"
    and gb: "\<forall>x. g_score st cur = Some x \<longrightarrow> x < int (card (closed_set st))"
    by (auto simp add: relax_inv_def)
  show ?thesis
  proof (cases "\<not> in_bounds m ?nb \<or> cell m ?nb = WALL \<or> ?nb \<in> closed_set st")
    case True
    then show ?thesis using assms by (simp add: relax_def Let_def)
  next
    case ok: False
    then have nbU: "?nb \<in> reach_universe m s" and nbc: "?nb \<notin> closed_set st"
      by (auto simp add: reach_universe_def)
    have ne: "?nb \<noteq> cur" using nbc cc by auto
    show ?thesis
    proof (cases "g_score st cur")
      case None
      then show ?thesis using ok assms by (simp add: relax_def Let_def)
    next
      case (Some gc)
      note i = astar_invD[OF inv]
      have gc: "0 \<le> gc" "gc < int (card (closed_set st))" using i(6)[OF Some] gb Some by auto
      show ?thesis
      proof (cases "case g_score st ?nb of None \<Rightarrow> True | Some gn \<Rightarrow> gc + 1 < gn")
        case False
        then show ?thesis using ok Some assms by (simp add: relax_def Let_def)
      next
        case True
        define st1 where "st1 = st\<lparr>came_from := (came_from st)(?nb \<mapsto> cur),
                            g_score := (g_score st)(?nb \<mapsto> gc + 1)\<rparr>"
        have inv1: "astar_inv m s st1"
          unfolding astar_inv_def
        proof (intro conjI allI impI)
          show "distinct (map (\<lambda>it. snd (snd it)) (open_set st1))"
            using i(1) by (simp add: st1_def)
          show "open_cells st1 \<inter> closed_set st1 = {}"
            using i(2) by (simp add: st1_def open_cells_def)
          show "open_cells st1 \<subseteq> reach_universe m s"
            using i(3) by (simp add: st1_def open_cells_def)
          show "closed_set st1 \<subseteq> reach_universe m s"
            using i(4) by (simp add: st1_def)
        next
          fix p c assume pc: "came_from st1 p = Some c"
          show "c \<in> closed_set st1"
            using pc i(5)[of p c] cc by (cases "p = ?nb") (auto simp add: st1_def)
          show "\<exists>x y. g_score st1 p = Some x \<and> g_score st1 c = Some y \<and> 0 \<le> y \<and> y < x"
          proof (cases "p = ?nb")
            case True
            then have "c = cur" using pc by (simp add: st1_def)
            then show ?thesis using True Some gc ne by (simp add: st1_def)
          next
            case False
            then have old: "came_from st p = Some c" using pc by (simp add: st1_def)
            then have "c \<in> closed_set st" using i(5)[of p c] by simp
            then have "c \<noteq> ?nb" using nbc by auto
            moreover have "\<exists>x y. g_score st p = Some x \<and> g_score st c = Some y \<and> 0 \<le> y \<and> y < x"
              using i(5)[OF old] by simp
            ultimately show ?thesis using False by (simp add: st1_def)
          qed
        next
          fix p x assume px: "g_score st1 p = Some x"
          show "0 \<le> x" using px i(6)[of p x] gc by (cases "p = ?nb") (auto simp add: st1_def)
          show "x \<le> int (card (closed_set st1))"
            using px i(6)[of p x] gc by (cases "p = ?nb") (auto simp add: st1_def)
        qed
        have r1: "relax_inv m s cur st1"
          using inv1 cc gb ne by (simp add: relax_inv_def st1_def)
        show ?thesis
        proof (cases "?nb \<in> open_cells st1")
          case True
          then have "relax m g cur d st = st1"
            using ok Some \<open>case g_score st ?nb of None \<Rightarrow> True | Some gn \<Rightarrow> gc + 1 < gn\<close>
            by (simp add: relax_def Let_def st1_def open_cells_def)
          then show ?thesis using r1 by simp
        next
          case False
          define st2 where "st2 = st1\<lparr>counter := counter st1 + 1,
                        open_set := open_set st1 @
                          [(gc + 1 + heuristic ?nb g, counter st1 + 1, ?nb)]\<rparr>"
          have e: "relax m g cur d st = st2"
            using False ok Some \<open>case g_score st ?nb of None \<Rightarrow> True | Some gn \<Rightarrow> gc + 1 < gn\<close>
            by (simp add: relax_def Let_def st1_def st2_def open_cells_def)
          have oc: "open_cells st2 = insert ?nb (open_cells st1)"
            by (simp add: st2_def open_cells_def)
          note j = astar_invD[OF inv1]
          have "astar_inv m s st2"
            unfolding astar_inv_def
          proof (intro conjI)
            show "distinct (map (\<lambda>it. snd (snd it)) (open_set st2))"
              using j(1) False by (simp add: st2_def open_cells_def)
            show "open_cells st2 \<inter> closed_set st2 = {}"
              unfolding oc using j(2) nbc by (simp add: st2_def st1_def)
            show "open_cells st2 \<subseteq> reach_universe m s"
              unfolding oc using j(3) nbU by simp
            show "closed_set st2 \<subseteq> reach_universe m s"
              using j(4) by (simp add: st2_def)
            show "\<forall>p c. came_from st2 p = Some c \<longrightarrow>
                c \<in> closed_set st2 \<and> (\<exists>x y. g_score st2 p = Some x \<and> g_score st2 c = Some y \<and> 0 \<le> y \<and> y < x)"
              using j(5) by (simp add: st2_def)
            show "\<forall>p x. g_score st2 p = Some x \<longrightarrow> 0 \<le> x \<and> x \<le> int (card (closed_set st2))"
              using j(6) by (simp add: st2_def)
          qed
          then have "relax_inv m s cur st2" using r1 by (simp add: relax_inv_def st2_def)
          then show ?thesis using e by simp
        qed
      qed
    qed
  qed
qed

lemma fold_relax_preserves:
  "relax_inv m s cur st \<Longrightarrow> relax_inv m s cur (fold (relax m g cur) ds st)"
  by (induction ds arbitrary: st) (simp_all add: relax_preserves)

lemma fold_relax_closed: "closed_set (fold (relax m g cur) ds st) = closed_set st"
proof (induction ds arbitrary: st)
  case Nil
  then show ?case by simp
next
  case (Cons d ds)
  have "closed_set (relax m g cur d st) = closed_set st"
    by (simp add: relax_def Let_def split: option.splits)
  then show ?case using Cons by simp
qed

lemma heap_min_mem: "heap_min a as \<in> set (a # as)"
  by (induction as arbitrary: a) (auto split: if_splits)

lemma remove1_image_distinct:
  assumes "distinct (map f xs)" "x \<in> set xs"
  shows "f ` set (remove1 x xs) = f ` set xs - {f x}"
proof -
  have d: "distinct xs" and inj: "inj_on f (set xs)" using assms(1) by (simp_all add: distinct_map)
  have "set (remove1 x xs) = set xs - {x}" using d by simp
  then show ?thesis using inj assms(2) by (auto simp add: inj_on_def)
qed

lemma distinct_map_remove1: "distinct (map f xs) \<Longrightarrow> distinct (map f (remove1 x xs))"
proof (induction xs)
  case Nil
  then show ?case by simp
next
  case (Cons y ys)
  have "set (remove1 x ys) \<subseteq> set ys" by (rule set_remove1_subset)
  then show ?case using Cons by auto
qed

lemma path_back_returns:
  assumes link: "\<And>p c. cf p = Some c \<Longrightarrow> \<exists>x y. gs p = Some x \<and> gs c = Some y \<and> (0::int) \<le> y \<and> y < x"
    and "cf cur = None \<or> (\<exists>x. gs cur = Some x \<and> nat x < k)" and "0 < k"
  shows "path_back k cf cur \<noteq> None"
  using assms(2,3)
proof (induction k arbitrary: cur)
  case 0
  then show ?case by simp
next
  case (Suc k)
  show ?case
  proof (cases "cf cur")
    case None
    then show ?thesis by simp
  next
    case (Some c)
    from link[OF Some] obtain x y where xy: "gs cur = Some x" "gs c = Some y" "0 \<le> y" "y < x" by blast
    have "nat x < Suc k" using Suc.prems(1) Some xy by auto
    then have yk: "nat y < k" using xy by linarith
    then have "path_back k cf c \<noteq> None"
      using Suc.IH[of c] xy by auto
    then show ?thesis using Some by (auto split: option.splits)
  qed
qed

lemma astar_loop_returns:
  assumes "astar_inv m s st" and "card (reach_universe m s - closed_set st) < n"
    and "height m * width m + 1 < k"
  shows "astar_loop n k m g st \<noteq> None"
  using assms(1,2)
proof (induction n arbitrary: st)
  case 0
  then show ?case by simp
next
  case (Suc n)
  note i = astar_invD[OF Suc.prems(1)]
  have fin: "finite (closed_set st)" using i(4) finite_reach_universe by (rule finite_subset)
  show ?case
  proof (cases "open_set st")
    case Nil
    then show ?thesis by simp
  next
    case (Cons a as)
    define item where "item = heap_min a as"
    define cur where "cur = snd (snd item)"
    have im: "item \<in> set (open_set st)" using heap_min_mem[of a as] Cons by (simp add: item_def)
    then have co: "cur \<in> open_cells st" by (auto simp add: cur_def open_cells_def)
    then have cU: "cur \<in> reach_universe m s" and cnc: "cur \<notin> closed_set st" using i(2,3) by auto
    show ?thesis
    proof (cases "cur = g")
      case True
      have "card (closed_set st) \<le> card (reach_universe m s)"
        using i(4) finite_reach_universe by (simp add: card_mono)
      then have cb: "card (closed_set st) \<le> height m * width m + 1"
        using card_reach_universe[of m s] by linarith
      have "came_from st cur = None \<or> (\<exists>x. g_score st cur = Some x \<and> nat x < k)"
      proof (cases "came_from st cur")
        case None
        then show ?thesis by simp
      next
        case (Some c)
        then obtain x where x: "g_score st cur = Some x" using i(5)[OF Some] by blast
        then have "x \<le> int (card (closed_set st))" using i(6)[OF x] by simp
        then have "nat x < k" using cb assms(3) by linarith
        then show ?thesis using x by simp
      qed
      moreover have "0 < k" using assms(3) by simp
      ultimately have "path_back k (came_from st) cur \<noteq> None"
        using path_back_returns[of "came_from st" "g_score st" cur k] i(5) by blast
      then show ?thesis using Cons True
        by (simp add: Let_def item_def[symmetric] cur_def[symmetric] reconstruct_path_def)
    next
      case False
      define st1 where "st1 = st\<lparr>open_set := remove1 item (open_set st),
                           closed_set := insert cur (closed_set st)\<rparr>"
      have oc1: "open_cells st1 = open_cells st - {cur}"
        using remove1_image_distinct[OF i(1) im] by (simp add: st1_def open_cells_def cur_def)
      have card1: "card (closed_set st1) = Suc (card (closed_set st))"
        using fin cnc by (simp add: st1_def)
      have inv1: "astar_inv m s st1"
        unfolding astar_inv_def
      proof (intro conjI allI impI)
        show "distinct (map (\<lambda>it. snd (snd it)) (open_set st1))"
          using distinct_map_remove1[OF i(1)] by (simp add: st1_def)
        show "open_cells st1 \<inter> closed_set st1 = {}"
          unfolding oc1 using i(2) by (auto simp add: st1_def)
        show "open_cells st1 \<subseteq> reach_universe m s" unfolding oc1 using i(3) by auto
        show "closed_set st1 \<subseteq> reach_universe m s" using i(4) cU by (simp add: st1_def)
      next
        fix p c assume "came_from st1 p = Some c"
        then have old: "came_from st p = Some c" by (simp add: st1_def)
        show "c \<in> closed_set st1" using i(5)[OF old] by (simp add: st1_def)
        show "\<exists>x y. g_score st1 p = Some x \<and> g_score st1 c = Some y \<and> 0 \<le> y \<and> y < x"
          using i(5)[OF old] by (simp add: st1_def)
      next
        fix p x assume "g_score st1 p = Some x"
        then have old: "g_score st p = Some x" by (simp add: st1_def)
        show "0 \<le> x" using i(6)[OF old] by simp
        show "x \<le> int (card (closed_set st1))" using i(6)[OF old] card1 by simp
      qed
      have "\<forall>x. g_score st1 cur = Some x \<longrightarrow> x < int (card (closed_set st1))"
      proof (intro allI impI)
        fix x assume "g_score st1 cur = Some x"
        then have "g_score st cur = Some x" by (simp add: st1_def)
        then show "x < int (card (closed_set st1))" using i(6)[of cur x] card1 by simp
      qed
      then have r1: "relax_inv m s cur st1" using inv1 by (simp add: relax_inv_def st1_def)
      define st2 where "st2 = fold (relax m g cur) ACTIONS st1"
      have inv2: "astar_inv m s st2"
        using fold_relax_preserves[OF r1, of g ACTIONS] by (simp add: st2_def relax_inv_def)
      have c2: "closed_set st2 = insert cur (closed_set st)"
        by (simp add: st2_def fold_relax_closed st1_def)
      have "reach_universe m s - closed_set st2 \<subset> reach_universe m s - closed_set st"
        unfolding c2 using cU cnc by auto
      then have "card (reach_universe m s - closed_set st2) < card (reach_universe m s - closed_set st)"
        by (rule psubset_card_mono[rotated]) (simp add: finite_reach_universe)
      then have "card (reach_universe m s - closed_set st2) < n" using Suc.prems(2) by linarith
      then have "astar_loop n k m g st2 \<noteq> None" using Suc.IH[OF inv2] by simp
      then show ?thesis using Cons False
        by (simp add: Let_def item_def[symmetric] cur_def[symmetric] st2_def st1_def)
    qed
  qed
qed

lemma astar_init_inv: "astar_inv m s (astar_init s)"
  by (simp add: astar_inv_def astar_init_def open_cells_def reach_universe_def)

text \<open>
  The loops of \<open>solve\<close> return: the fuel of \<open>solve_opt\<close> is never used up, for any
  maze, start and goal.
\<close>

lemma solve_opt_returns: "\<exists>p. solve_opt m s g = Some p"
proof -
  have "card (reach_universe m s - closed_set (astar_init s)) < solve_fuel m"
    using card_reach_universe[of m s] by (simp add: astar_init_def solve_fuel_def)
  moreover have "height m * width m + 1 < solve_fuel m" by (simp add: solve_fuel_def)
  ultimately have "astar_loop (solve_fuel m) (solve_fuel m) m g (astar_init s) \<noteq> None"
    using astar_loop_returns[OF astar_init_inv] by blast
  then show ?thesis by (auto simp add: solve_opt_def)
qed

section \<open>The solver finds a path exactly when there is one\<close>

lemma path_invD:
  assumes "path_inv m s st"
  shows "came_from st s = None"
    and "\<And>p c. came_from st p = Some c \<Longrightarrow> (\<exists>d\<in>set ACTIONS. p = move c d) \<and> is_valid m p"
    and "\<And>p. p \<in> seen st \<Longrightarrow> p = s \<or> came_from st p \<noteq> None"
    and "\<And>p. p \<in> seen st \<longleftrightarrow> g_score st p \<noteq> None"
    and "s \<in> seen st"
  using assms unfolding path_inv_def by blast+

lemma relax_effect:
  "(relax m g cur d st = st
      \<and> (\<not> is_valid m (move cur d) \<or> move cur d \<in> closed_set st \<or> g_score st cur = None
          \<or> g_score st (move cur d) \<noteq> None))
   \<or> (is_valid m (move cur d) \<and> move cur d \<notin> closed_set st
      \<and> came_from (relax m g cur d st) = (came_from st)(move cur d \<mapsto> cur)
      \<and> (\<exists>x. g_score (relax m g cur d st) = (g_score st)(move cur d \<mapsto> x))
      \<and> closed_set (relax m g cur d st) = closed_set st
      \<and> open_cells (relax m g cur d st) = insert (move cur d) (open_cells st))"
proof -
  let ?nb = "move cur d"
  show ?thesis
  proof (cases "\<not> in_bounds m ?nb \<or> cell m ?nb = WALL \<or> ?nb \<in> closed_set st")
    case True
    then show ?thesis by (auto simp add: relax_def Let_def is_valid_def)
  next
    case ok: False
    then have v: "is_valid m ?nb" "?nb \<notin> closed_set st" by (auto simp add: is_valid_def)
    show ?thesis
    proof (cases "g_score st cur")
      case None
      then show ?thesis using ok by (simp add: relax_def Let_def)
    next
      case (Some gc)
      show ?thesis
      proof (cases "case g_score st ?nb of None \<Rightarrow> True | Some gn \<Rightarrow> gc + 1 < gn")
        case False
        then have "g_score st ?nb \<noteq> None" by (auto split: option.splits)
        moreover have "relax m g cur d st = st" using False ok Some by (simp add: relax_def Let_def)
        ultimately show ?thesis by simp
      next
        case True
        define st1 where "st1 = st\<lparr>came_from := (came_from st)(?nb \<mapsto> cur),
                            g_score := (g_score st)(?nb \<mapsto> gc + 1)\<rparr>"
        have fin: ?thesis if r: "relax m g cur d st = st'" and cf: "came_from st' = (came_from st)(?nb \<mapsto> cur)"
          and gs: "g_score st' = (g_score st)(?nb \<mapsto> gc + 1)" and cl: "closed_set st' = closed_set st"
          and oc: "open_cells st' = insert ?nb (open_cells st)" for st'
        proof -
          have "\<exists>x. g_score (relax m g cur d st) = (g_score st)(?nb \<mapsto> x)" using r gs by blast
          then show ?thesis using v r cf cl oc by simp
        qed
        show ?thesis
        proof (cases "?nb \<in> open_cells st")
          case in_open: True
          have "relax m g cur d st = st1"
            using in_open ok Some True by (simp add: relax_def Let_def st1_def open_cells_def)
          moreover have "open_cells st1 = open_cells st" by (simp add: st1_def open_cells_def)
          then have "open_cells st1 = insert ?nb (open_cells st)" using in_open by blast
          ultimately show ?thesis by (intro fin[of st1]) (simp_all add: st1_def)
        next
          case not_open: False
          define st2 where "st2 = st1\<lparr>counter := counter st1 + 1,
                        open_set := open_set st1 @ [(gc + 1 + heuristic ?nb g, counter st1 + 1, ?nb)]\<rparr>"
          have "relax m g cur d st = st2"
            using not_open ok Some True by (simp add: relax_def Let_def st1_def st2_def open_cells_def)
          moreover have "open_cells st2 = insert ?nb (open_cells st)"
            by (simp add: st2_def st1_def open_cells_def)
          ultimately show ?thesis by (intro fin[of st2]) (simp_all add: st2_def st1_def)
        qed
      qed
    qed
  qed
qed

lemma relax_seen: "seen st \<subseteq> seen (relax m g cur d st)"
  using relax_effect[of m g cur d st] by (auto simp add: seen_def)

lemma relax_path_inv:
  assumes inv: "path_inv m s st" and sc: "s \<in> closed_set st" and d: "d \<in> set ACTIONS"
  shows "path_inv m s (relax m g cur d st)"
proof -
  note i = path_invD[OF inv]
  let ?nb = "move cur d" and ?r = "relax m g cur d st"
  from relax_effect[of m g cur d st] show ?thesis
  proof
    assume "?r = st \<and> (\<not> is_valid m ?nb \<or> ?nb \<in> closed_set st \<or> g_score st cur = None
          \<or> g_score st ?nb \<noteq> None)"
    then show ?thesis using inv by simp
  next
    assume a: "is_valid m ?nb \<and> ?nb \<notin> closed_set st
      \<and> came_from ?r = (came_from st)(?nb \<mapsto> cur)
      \<and> (\<exists>x. g_score ?r = (g_score st)(?nb \<mapsto> x))
      \<and> closed_set ?r = closed_set st
      \<and> open_cells ?r = insert ?nb (open_cells st)"
    then obtain x where gs: "g_score ?r = (g_score st)(?nb \<mapsto> x)" by blast
    have cf: "came_from ?r = (came_from st)(?nb \<mapsto> cur)" using a by simp
    have sn: "seen ?r = insert ?nb (seen st)" using a by (simp add: seen_def)
    have ns: "?nb \<noteq> s" using a sc by auto
    show ?thesis
      unfolding path_inv_def
    proof (intro conjI allI impI)
      show "came_from ?r s = None" using i(1) ns by (simp add: cf)
    next
      fix p c assume pc: "came_from ?r p = Some c"
      show "\<exists>d\<in>set ACTIONS. p = move c d"
      proof (cases "p = ?nb")
        case True
        then have "c = cur" using pc by (simp add: cf)
        then show ?thesis using True d by blast
      next
        case False
        then have "came_from st p = Some c" using pc by (simp add: cf)
        then show ?thesis using i(2) by blast
      qed
      show "is_valid m p"
      proof (cases "p = ?nb")
        case True
        then show ?thesis using a by simp
      next
        case False
        then have "came_from st p = Some c" using pc by (simp add: cf)
        then show ?thesis using i(2) by blast
      qed
    next
      fix p assume "p \<in> seen ?r"
      then show "p = s \<or> came_from ?r p \<noteq> None"
        using i(3)[of p] by (cases "p = ?nb") (auto simp add: cf sn)
    next
      fix p show "p \<in> seen ?r \<longleftrightarrow> g_score ?r p \<noteq> None"
        using i(4)[of p] by (cases "p = ?nb") (auto simp add: gs sn)
    next
      show "s \<in> seen ?r" using i(5) by (simp add: sn)
    qed
  qed
qed

lemma relax_neighbour_seen:
  assumes inv: "path_inv m s st" and cur: "cur \<in> seen st" and v: "is_valid m (move cur d)"
  shows "move cur d \<in> seen (relax m g cur d st)"
proof -
  note i = path_invD[OF inv]
  have gc: "g_score st cur \<noteq> None" using i(4) cur by blast
  from relax_effect[of m g cur d st] show ?thesis
  proof
    assume a: "relax m g cur d st = st \<and> (\<not> is_valid m (move cur d) \<or> move cur d \<in> closed_set st
        \<or> g_score st cur = None \<or> g_score st (move cur d) \<noteq> None)"
    then have "move cur d \<in> closed_set st \<or> g_score st (move cur d) \<noteq> None" using v gc by blast
    then have "move cur d \<in> seen st" using i(4)[of "move cur d"] by (auto simp add: seen_def)
    then show ?thesis using a by simp
  next
    assume "is_valid m (move cur d) \<and> move cur d \<notin> closed_set st
      \<and> came_from (relax m g cur d st) = (came_from st)(move cur d \<mapsto> cur)
      \<and> (\<exists>x. g_score (relax m g cur d st) = (g_score st)(move cur d \<mapsto> x))
      \<and> closed_set (relax m g cur d st) = closed_set st
      \<and> open_cells (relax m g cur d st) = insert (move cur d) (open_cells st)"
    then show ?thesis by (simp add: seen_def)
  qed
qed

lemma fold_relax_path:
  assumes "path_inv m s st" "s \<in> closed_set st" "cur \<in> seen st" "set ds \<subseteq> set ACTIONS"
  shows "path_inv m s (fold (relax m g cur) ds st)
       \<and> seen st \<subseteq> seen (fold (relax m g cur) ds st)
       \<and> (\<forall>d\<in>set ds. is_valid m (move cur d) \<longrightarrow> move cur d \<in> seen (fold (relax m g cur) ds st))"
  using assms
proof (induction ds arbitrary: st)
  case Nil
  then show ?case by simp
next
  case (Cons d ds)
  let ?st = "relax m g cur d st"
  have d: "d \<in> set ACTIONS" using Cons.prems(4) by simp
  have 1: "path_inv m s ?st" using relax_path_inv[OF Cons.prems(1,2) d] .
  have 2: "s \<in> closed_set ?st" using Cons.prems(2) relax_effect[of m g cur d st] by auto
  have sub: "seen st \<subseteq> seen ?st" by (rule relax_seen)
  have 3: "cur \<in> seen ?st" using Cons.prems(3) sub by blast
  have 4: "set ds \<subseteq> set ACTIONS" using Cons.prems(4) by simp
  note ih = Cons.IH[OF 1 2 3 4]
  have here: "is_valid m (move cur d) \<longrightarrow> move cur d \<in> seen (fold (relax m g cur) ds ?st)"
    using relax_neighbour_seen[OF Cons.prems(1,3)] ih by blast
  show ?case using ih sub here by auto
qed

lemma pop_inv:
  assumes inv: "astar_inv m s st" and im: "item \<in> set (open_set st)"
  defines "st1 \<equiv> st\<lparr>open_set := remove1 item (open_set st),
                      closed_set := insert (snd (snd item)) (closed_set st)\<rparr>"
  shows "relax_inv m s (snd (snd item)) st1"
    and "open_cells st1 = open_cells st - {snd (snd item)}"
    and "snd (snd item) \<in> open_cells st"
    and "seen st1 = seen st"
proof -
  let ?cur = "snd (snd item)"
  note i = astar_invD[OF inv]
  have fin: "finite (closed_set st)" using i(4) finite_reach_universe by (rule finite_subset)
  show co: "?cur \<in> open_cells st" using im by (auto simp add: open_cells_def)
  then have cU: "?cur \<in> reach_universe m s" and cnc: "?cur \<notin> closed_set st" using i(2,3) by auto
  show oc1: "open_cells st1 = open_cells st - {?cur}"
    using remove1_image_distinct[OF i(1) im] by (simp add: st1_def open_cells_def)
  show "seen st1 = seen st" unfolding seen_def oc1 using co by (auto simp add: st1_def)
  have card1: "card (closed_set st1) = Suc (card (closed_set st))"
    using fin cnc by (simp add: st1_def)
  have inv1: "astar_inv m s st1"
    unfolding astar_inv_def
  proof (intro conjI allI impI)
    show "distinct (map (\<lambda>it. snd (snd it)) (open_set st1))"
      using distinct_map_remove1[OF i(1)] by (simp add: st1_def)
    show "open_cells st1 \<inter> closed_set st1 = {}"
      unfolding oc1 using i(2) by (auto simp add: st1_def)
    show "open_cells st1 \<subseteq> reach_universe m s" unfolding oc1 using i(3) by auto
    show "closed_set st1 \<subseteq> reach_universe m s" using i(4) cU by (simp add: st1_def)
  next
    fix p c assume "came_from st1 p = Some c"
    then have old: "came_from st p = Some c" by (simp add: st1_def)
    show "c \<in> closed_set st1" using i(5)[OF old] by (simp add: st1_def)
    show "\<exists>x y. g_score st1 p = Some x \<and> g_score st1 c = Some y \<and> 0 \<le> y \<and> y < x"
      using i(5)[OF old] by (simp add: st1_def)
  next
    fix p x assume "g_score st1 p = Some x"
    then have old: "g_score st p = Some x" by (simp add: st1_def)
    show "0 \<le> x" using i(6)[OF old] by simp
    show "x \<le> int (card (closed_set st1))" using i(6)[OF old] card1 by simp
  qed
  have "\<forall>x. g_score st1 ?cur = Some x \<longrightarrow> x < int (card (closed_set st1))"
  proof (intro allI impI)
    fix x assume "g_score st1 ?cur = Some x"
    then have "g_score st ?cur = Some x" by (simp add: st1_def)
    then show "x < int (card (closed_set st1))" using i(6)[of ?cur x] card1 by simp
  qed
  then show "relax_inv m s ?cur st1" using inv1 by (simp add: relax_inv_def st1_def)
qed

lemma path_back_chain:
  assumes "path_back k cf cur = Some xs"
  shows "xs \<noteq> [] \<and> hd xs = cur \<and> cf (last xs) = None \<and> successively (\<lambda>a b. cf a = Some b) xs"
  using assms
proof (induction k arbitrary: cur xs)
  case 0
  then show ?case by simp
next
  case (Suc k)
  show ?case
  proof (cases "cf cur")
    case None
    then have "xs = [cur]" using Suc.prems by simp
    then show ?thesis using None by simp
  next
    case (Some c)
    then obtain ys where ys: "path_back k cf c = Some ys" and xs: "xs = cur # ys"
      using Suc.prems by (auto split: option.splits)
    from Suc.IH[OF ys] have ih: "ys \<noteq> []" "hd ys = c" "cf (last ys) = None"
      "successively (\<lambda>a b. cf a = Some b) ys" by simp_all
    then obtain y ys' where yy: "ys = y # ys'" by (cases ys) auto
    then have "y = c" using ih(2) by simp
    then show ?thesis using ih yy xs Some by simp
  qed
qed

lemma astar_loop_result:
  assumes "astar_inv m s st" "path_inv m s st" "closed_under m st" "start_first s st"
    and "g \<notin> closed_set st" and "astar_loop n k m g st = Some p"
  shows "(p = [] \<longrightarrow> (\<exists>C. s \<in> C \<and> g \<notin> C
                       \<and> (\<forall>c\<in>C. \<forall>d\<in>set ACTIONS. is_valid m (move c d) \<longrightarrow> move c d \<in> C)))
       \<and> (p \<noteq> [] \<longrightarrow> (\<exists>st'. astar_inv m s st' \<and> path_inv m s st' \<and> g \<in> seen st'
                       \<and> path_back k (came_from st') g = Some (rev p)))"
  using assms
proof (induction n arbitrary: st)
  case 0
  then show ?case by simp
next
  case (Suc n)
  note pi = path_invD[OF Suc.prems(2)]
  show ?case
  proof (cases "open_set st")
    case Nil
    then have p: "p = []" using Suc.prems(6) by simp
    have sn: "seen st = closed_set st" using Nil by (simp add: seen_def open_cells_def)
    have "s \<in> closed_set st" using pi(5) sn by simp
    moreover have "\<forall>c\<in>closed_set st. \<forall>d\<in>set ACTIONS. is_valid m (move c d) \<longrightarrow> move c d \<in> closed_set st"
      using Suc.prems(3) sn by (simp add: closed_under_def)
    ultimately show ?thesis using p Suc.prems(5) by blast
  next
    case (Cons a as)
    define item where "item = heap_min a as"
    define cur where "cur = snd (snd item)"
    have im: "item \<in> set (open_set st)" using heap_min_mem[of a as] Cons by (simp add: item_def)
    define st1 where "st1 = st\<lparr>open_set := remove1 item (open_set st),
                           closed_set := insert cur (closed_set st)\<rparr>"
    note pop = pop_inv[OF Suc.prems(1) im, folded cur_def, folded st1_def]
    show ?thesis
    proof (cases "cur = g")
      case True
      have e: "reconstruct_path k (came_from st) g = Some p"
        using Suc.prems(6) Cons True
        by (simp add: Let_def item_def[symmetric] cur_def[symmetric])
      then obtain xs where xs: "path_back k (came_from st) g = Some xs" "p = rev xs"
        by (auto simp add: reconstruct_path_def)
      have ne: "xs \<noteq> []" using path_back_chain[OF xs(1)] by simp
      have "g \<in> seen st" using pop(3) True by (simp add: seen_def)
      then show ?thesis using Suc.prems(1,2) xs ne by auto
    next
      case False
      define st2 where "st2 = fold (relax m g cur) ACTIONS st1"
      have e: "astar_loop n k m g st2 = Some p"
        using Suc.prems(6) Cons False
        by (simp add: Let_def item_def[symmetric] cur_def[symmetric] st2_def st1_def)
      have inv2: "astar_inv m s st2"
        using fold_relax_preserves[OF pop(1), of g ACTIONS] by (simp add: st2_def relax_inv_def)
      have p1: "path_inv m s st1"
        using Suc.prems(2) pop(4) by (simp add: path_inv_def st1_def)
      have s1: "s \<in> closed_set st1"
        using Suc.prems(4) pop(3) by (auto simp add: start_first_def st1_def)
      have c1: "cur \<in> seen st1" by (simp add: seen_def st1_def)
      note f = fold_relax_path[OF p1 s1 c1 subset_refl, of g, folded st2_def]
      have c2: "closed_set st2 = insert cur (closed_set st)"
        by (simp add: st2_def fold_relax_closed st1_def)
      have cu: "closed_under m st2"
        unfolding closed_under_def c2
      proof (intro ballI impI)
        fix c d assume c: "c \<in> insert cur (closed_set st)" and d: "d \<in> set ACTIONS"
          and v: "is_valid m (move c d)"
        show "move c d \<in> seen st2"
        proof (cases "c = cur")
          case True
          then show ?thesis using f d v by blast
        next
          case False
          then have "c \<in> closed_set st" using c by simp
          then have "move c d \<in> seen st" using Suc.prems(3) d v by (simp add: closed_under_def)
          then show ?thesis using f pop(4) by blast
        qed
      qed
      have sf: "start_first s st2" using s1 by (simp add: start_first_def c2 st1_def)
      have gn: "g \<notin> closed_set st2" using Suc.prems(5) False by (simp add: c2)
      have p2: "path_inv m s st2" using f by simp
      show ?thesis using Suc.IH[OF inv2 p2 cu sf gn e] .
    qed
  qed
qed

lemma heuristic_move: "d \<in> set ACTIONS \<Longrightarrow> heuristic a (move a d) = 1"
  by (auto simp add: ACTIONS_def heuristic_def move_def)

lemma heuristic_step:
  assumes "heuristic a b = 1"
  shows "\<exists>d\<in>set ACTIONS. b = move a d"
proof -
  define dy where "dy = fst b - fst a"
  define dx where "dx = snd b - snd a"
  have "\<bar>dy\<bar> + \<bar>dx\<bar> = 1" using assms by (simp add: heuristic_def dy_def dx_def abs_minus_commute)
  then have "(dy, dx) = (-1, 0) \<or> (dy, dx) = (1, 0) \<or> (dy, dx) = (0, -1) \<or> (dy, dx) = (0, 1)"
    by auto
  then have "(dy, dx) \<in> set ACTIONS" by (auto simp add: ACTIONS_def)
  moreover have "b = move a (dy, dx)" by (simp add: move_def dy_def dx_def)
  ultimately show ?thesis by blast
qed

lemma heuristic_sym: "heuristic a b = heuristic b a"
  by (simp add: heuristic_def abs_minus_commute)

lemma chain_successively: "chain ps \<longleftrightarrow> successively (\<lambda>a b. heuristic a b = 1) ps"
  by (induction ps rule: chain.induct) simp_all

lemma closed_walk:
  assumes "\<forall>c\<in>C. \<forall>d\<in>set ACTIONS. is_valid m (move c d) \<longrightarrow> move c d \<in> C"
    and "ps \<noteq> []" "hd ps \<in> C" "list_all (is_valid m) ps" "chain ps"
  shows "set ps \<subseteq> C"
  using assms(2-)
proof (induction ps rule: chain.induct)
  case (1 a b ps)
  have "a \<in> C" using "1.prems"(2) by simp
  moreover obtain d where "d \<in> set ACTIONS" "b = move a d"
    using heuristic_step[of a b] "1.prems"(4) by auto
  moreover have "is_valid m b" using "1.prems"(3) by simp
  ultimately have "b \<in> C" using assms(1) by blast
  then have "set (b # ps) \<subseteq> C" using "1.IH" "1.prems" by simp
  then show ?case using \<open>a \<in> C\<close> by simp
qed simp_all

lemma path_inv_init: "path_inv m s (astar_init s)"
  by (simp add: path_inv_def astar_init_def seen_def open_cells_def)

lemma solve_opt_result:
  assumes "solve_opt m s g = Some p"
  shows "(p = [] \<longrightarrow> (\<exists>C. s \<in> C \<and> g \<notin> C
                       \<and> (\<forall>c\<in>C. \<forall>d\<in>set ACTIONS. is_valid m (move c d) \<longrightarrow> move c d \<in> C)))
       \<and> (p \<noteq> [] \<longrightarrow> (\<exists>st'. astar_inv m s st' \<and> path_inv m s st' \<and> g \<in> seen st'
                       \<and> path_back (solve_fuel m) (came_from st') g = Some (rev p)))"
proof (rule astar_loop_result[OF astar_init_inv path_inv_init])
  show "closed_under m (astar_init s)" by (simp add: closed_under_def astar_init_def)
  show "start_first s (astar_init s)" by (simp add: start_first_def astar_init_def open_cells_def)
  show "g \<notin> closed_set (astar_init s)" by (simp add: astar_init_def)
  show "astar_loop (solve_fuel m) (solve_fuel m) m g (astar_init s) = Some p"
    using assms by (simp add: solve_opt_def)
qed

text \<open>Completeness: when a path of valid cells leads from the start to the goal, \<open>solve\<close> finds one.\<close>

lemma solve_complete:
  assumes "is_path m s g ps"
  shows "solve m s g \<noteq> []"
proof
  assume e: "solve m s g = []"
  obtain p where p: "solve_opt m s g = Some p" using solve_opt_returns by blast
  then have "p = []" using e by (simp add: solve_def)
  then obtain C where C: "s \<in> C" "g \<notin> C"
    "\<forall>c\<in>C. \<forall>d\<in>set ACTIONS. is_valid m (move c d) \<longrightarrow> move c d \<in> C"
    using solve_opt_result[OF p] by blast
  have ps: "ps \<noteq> []" "hd ps = s" "last ps = g" "list_all (is_valid m) ps" "chain ps"
    using assms by (simp_all add: is_path_def)
  have "set ps \<subseteq> C" using closed_walk[OF C(3) ps(1) _ ps(4,5)] ps(2) C(1) by simp
  then have "g \<in> C" using ps(1,3) last_in_set by blast
  then show False using C(2) by simp
qed

lemma successively_distinct:
  fixes f :: "'a \<Rightarrow> int"
  assumes "successively (\<lambda>a b. f b < f a) xs"
  shows "distinct xs"
proof -
  have "transp (\<lambda>a b. f b < f a)" by (auto simp add: transp_def)
  then have "sorted_wrt (\<lambda>a b. f b < f a) xs"
    using assms successively_conv_sorted_wrt by blast
  then show ?thesis by (induction xs) auto
qed

lemma successively_butlast:
  assumes "successively P xs" "x \<in> set (butlast xs)"
  shows "\<exists>y\<in>set xs. P x y"
  using assms
proof (induction xs rule: induct_list012)
  case (3 a b xs)
  show ?case
  proof (cases "x = a")
    case True
    then show ?thesis using 3(3) by auto
  next
    case False
    then have "x \<in> set (butlast (b # xs))" using 3(4) by simp
    then show ?thesis using 3(2) 3(3) by auto
  qed
qed simp_all

lemma successively_targets:
  assumes "successively P xs" "Q (hd xs)" "\<And>a b. Q a \<Longrightarrow> P a b \<Longrightarrow> Q b"
  shows "\<forall>x\<in>set xs. Q x"
  using assms(1,2)
proof (induction xs rule: induct_list012)
  case (3 a b xs)
  have "Q b" using assms(3)[of a b] 3(3,4) by simp
  then show ?case using 3(2) 3(3,4) by simp
qed simp_all

text \<open>
  Soundness: a path returned by \<open>solve\<close> starts at the start, ends at the goal, moves by
  one step between valid cells, and passes no cell twice.
\<close>

lemma solve_sound:
  assumes "solve m s g \<noteq> []" and "is_valid m s"
  shows "is_path m s g (solve m s g) \<and> distinct (solve m s g)"
proof -
  obtain p where p: "solve_opt m s g = Some p" using solve_opt_returns by blast
  then have sp: "solve m s g = p" by (simp add: solve_def)
  then have ne: "p \<noteq> []" using assms(1) by simp
  obtain st where inv: "astar_inv m s st" and pinv: "path_inv m s st" and gs: "g \<in> seen st"
    and pb: "path_back (solve_fuel m) (came_from st) g = Some (rev p)"
    using solve_opt_result[OF p] ne by blast
  note i = astar_invD[OF inv] and j = path_invD[OF pinv]
  let ?cf = "came_from st"
  from path_back_chain[OF pb] have c: "hd (rev p) = g" "?cf (last (rev p)) = None"
    "successively (\<lambda>a b. ?cf a = Some b) (rev p)" by simp_all
  have lastp: "last p = g" using c(1) ne by (simp add: hd_rev)
  have cfhd: "?cf (hd p) = None" using c(2) ne by (simp add: last_rev)
  have "\<forall>x\<in>set (rev p). x \<in> seen st"
  proof (rule successively_targets[OF c(3)])
    show "hd (rev p) \<in> seen st" using c(1) gs by simp
    show "\<And>a b. a \<in> seen st \<Longrightarrow> ?cf a = Some b \<Longrightarrow> b \<in> seen st"
      using i(5) by (auto simp add: seen_def)
  qed
  then have "hd p \<in> seen st" using ne by simp
  then have hdp: "hd p = s" using j(3)[of "hd p"] cfhd by blast
  have fw: "successively (\<lambda>a b. ?cf b = Some a) p" using c(3) by (simp add: successively_rev)
  have "successively (\<lambda>a b. heuristic a b = 1) p"
  proof (rule successively_mono[OF fw])
    fix a b assume "?cf b = Some a"
    then obtain d where "d \<in> set ACTIONS" "b = move a d" using j(2) by blast
    then show "heuristic a b = 1" using heuristic_move by simp
  qed
  then have ch: "chain p" by (simp add: chain_successively)
  have "\<forall>x\<in>set p. is_valid m x"
  proof (rule successively_targets[OF fw])
    show "is_valid m (hd p)" using hdp assms(2) by simp
    show "\<And>a b. is_valid m a \<Longrightarrow> ?cf b = Some a \<Longrightarrow> is_valid m b" using j(2) by blast
  qed
  then have va: "list_all (is_valid m) p" by (simp add: list_all_iff)
  have "successively (\<lambda>a b. the (g_score st b) < the (g_score st a)) (rev p)"
  proof (rule successively_mono[OF c(3)])
    fix a b assume "?cf a = Some b"
    then show "the (g_score st b) < the (g_score st a)" using i(5)[of a b] by auto
  qed
  then have "distinct (rev p)" by (rule successively_distinct)
  then have "distinct p" by simp
  then show ?thesis unfolding sp using ne hdp lastp va ch by (simp add: is_path_def)
qed

lemma is_path_rev:
  assumes "is_path m a b ps"
  shows "is_path m b a (rev ps)"
proof -
  have ps: "ps \<noteq> []" "hd ps = a" "last ps = b" "list_all (is_valid m) ps"
    "successively (\<lambda>a b. heuristic a b = 1) ps"
    using assms by (simp_all add: is_path_def chain_successively)
  have "successively (\<lambda>a b. heuristic a b = 1) (rev ps)"
    unfolding successively_rev using ps(5) heuristic_sym by (simp add: successively_mono)
  then show ?thesis using ps(1-4) by (simp add: is_path_def chain_successively hd_rev last_rev)
qed

lemma is_path_append:
  assumes "is_path m a b ps" "is_path m b c qs"
  shows "is_path m a c (ps @ tl qs)"
proof -
  have ps: "ps \<noteq> []" "hd ps = a" "last ps = b" "list_all (is_valid m) ps"
    "successively (\<lambda>a b. heuristic a b = 1) ps"
    using assms(1) by (simp_all add: is_path_def chain_successively)
  have qs: "qs \<noteq> []" "hd qs = b" "last qs = c" "list_all (is_valid m) qs"
    "successively (\<lambda>a b. heuristic a b = 1) qs"
    using assms(2) by (simp_all add: is_path_def chain_successively)
  obtain q qs' where q: "qs = q # qs'" using qs(1) by (cases qs) auto
  then have qb: "q = b" using qs(2) by simp
  have l: "last (ps @ tl qs) = c"
  proof (cases "qs' = []")
    case True
    then show ?thesis using q qb qs(3) ps(1,3) by simp
  next
    case False
    then show ?thesis using q qs(3) by simp
  qed
  have s: "successively (\<lambda>a b. heuristic a b = 1) (ps @ tl qs)"
  proof (cases qs')
    case Nil
    then show ?thesis using q ps(5) by simp
  next
    case (Cons x xs)
    then have "heuristic b x = 1" "successively (\<lambda>a b. heuristic a b = 1) qs'"
      using qs(5) q qb by simp_all
    then show ?thesis using ps(1,3,5) q Cons by (simp add: successively_append_iff)
  qed
  have v: "list_all (is_valid m) (ps @ tl qs)" using ps(4) qs(4) q by simp
  show ?thesis using ps(1,2) l s v by (simp add: is_path_def chain_successively)
qed

lemma is_path_valid_ends:
  assumes "is_path m a b ps"
  shows "is_valid m a" "is_valid m b"
proof -
  have ps: "ps \<noteq> []" "hd ps = a" "last ps = b" "\<forall>x\<in>set ps. is_valid m x"
    using assms by (simp_all add: is_path_def list_all_iff)
  show "is_valid m a" using ps(1,2,4) hd_in_set by blast
  show "is_valid m b" using ps(1,3,4) last_in_set by blast
qed

text \<open>
  From two cells joined by a walk of valid cells, \<open>solve\<close> finds a path to the goal from
  both or from neither.
\<close>

lemma solve_same_component:
  assumes "is_path m a b ps"
  shows "solve m a g = [] \<longleftrightarrow> solve m b g = []"
proof -
  note v = is_path_valid_ends[OF assms]
  have 1: "solve m b g \<noteq> []" if "solve m a g \<noteq> []"
    using solve_complete[OF is_path_append[OF is_path_rev[OF assms]]] solve_sound[OF that v(1)]
    by blast
  have 2: "solve m a g \<noteq> []" if "solve m b g \<noteq> []"
    using solve_complete[OF is_path_append[OF assms]] solve_sound[OF that v(2)]
    by blast
  show ?thesis using 1 2 by blast
qed

section \<open>The maze is not written by a step\<close>

lemma take_move_maze: "maze (snd (take_move b ns)) = maze b"
  by (simp add: take_move_def Let_def)

lemma choose_action_maze: "maze (snd (choose_action u k b st n)) = maze b"
  by (simp add: choose_action_def Let_def split: sum.splits)

lemma solver_solve_maze: "maze (snd (solver_solve b)) = maze b"
  by (simp add: solver_solve_def Let_def)

lemma get_action_sequence_maze: "maze (snd (get_action_sequence b)) = maze b"
  by (simp add: get_action_sequence_def Let_def solver_solve_maze)

lemma mark_dead_end_maze: "maze (mark_dead_end b) = maze b"
  by (simp add: mark_dead_end_def)

lemma commit_hint_maze: "maze (snd (commit_hint b a ns)) = maze b"
  by (simp add: commit_hint_def Let_def mark_dead_end_maze split: sum.splits)

lemma escape_maze: "maze (snd (escape b)) = maze b"
  by (simp add: escape_def Let_def split: option.splits)

lemma commit_explore_maze: "maze (snd (commit_explore b a ns)) = maze b"
proof -
  define rb where "rb = (if ns \<in> visited_states b then
               (if last_state b = Some ns
                then (- 60, b\<lparr>backtrack_count := backtrack_count b + 1\<rparr>)
                else (- 30, b))
             else (real_of_int ((heuristic (state b) (goal b) - heuristic ns (goal b)) * 15), b))"
  have m0: "maze (snd rb) = maze b" by (simp add: rb_def)
  obtain rw b0 where rb: "rb = (rw, b0)" by (cases rb)
  have "commit_explore b a ns = (case update_q_table (q_table b0) (state b0) a rw ns of
           Inl e \<Rightarrow> (Inl e, b0)
         | Inr q \<Rightarrow>
             (let b1 = b0\<lparr>q_table := q,
                          last_state := Some (state b0),
                          state := ns,
                          visited_states := insert ns (visited_states b0),
                          step_count := step_count b0 + 1,
                          current_direction := Some (ACTIONS ! a)\<rparr>
              in (Inr (Position ns), mark_dead_end b1)))"
    unfolding commit_explore_def rb_def[symmetric] rb by simp
  then show ?thesis using m0 rb
    by (simp add: Let_def mark_dead_end_maze split: sum.splits)
qed

lemma explore_maze: "maze (snd (explore b)) = maze b"
proof (cases "valid_actions b")
  case Nil
  then show ?thesis by (simp add: explore_def escape_maze)
next
  case (Cons x xs)
  obtain i p s where "best_action x xs = (i, p, s)" by (cases "best_action x xs")
  then show ?thesis using Cons by (simp add: explore_def commit_explore_maze)
qed

lemma get_optimal_path_unfold:
  assumes "a_star_cache b (p, goal b) = None"
  shows "\<exists>acts b3. get_action_sequence (snd (solver_solve (b\<lparr>as_start := p, as_path := []\<rparr>))) = (acts, b3)
           \<and> get_optimal_path b p = (acts, b3\<lparr>a_star_cache := (a_star_cache b3)((p, goal b) \<mapsto> acts)\<rparr>)"
proof -
  obtain acts b3 where g: "get_action_sequence (snd (solver_solve (b\<lparr>as_start := p, as_path := []\<rparr>))) = (acts, b3)"
    by (cases "get_action_sequence (snd (solver_solve (b\<lparr>as_start := p, as_path := []\<rparr>)))")
  then show ?thesis using assms by (simp add: get_optimal_path_def Let_def)
qed

lemma get_optimal_path_maze: "maze (snd (get_optimal_path b p)) = maze b"
proof (cases "a_star_cache b (p, goal b)")
  case (Some acts)
  then show ?thesis by (simp add: get_optimal_path_def)
next
  case None
  from get_optimal_path_unfold[OF None] obtain acts b3 where
    g: "get_action_sequence (snd (solver_solve (b\<lparr>as_start := p, as_path := []\<rparr>))) = (acts, b3)"
    and e: "get_optimal_path b p = (acts, b3\<lparr>a_star_cache := (a_star_cache b3)((p, goal b) \<mapsto> acts)\<rparr>)"
    by blast
  have "maze b3 = maze (snd (solver_solve (b\<lparr>as_start := p, as_path := []\<rparr>)))"
    using get_action_sequence_maze[of "snd (solver_solve (b\<lparr>as_start := p, as_path := []\<rparr>))"] g by simp
  then show ?thesis using e by (simp add: solver_solve_maze)
qed

lemma step_maze: "maze (snd (step u k b)) = maze b"
proof (cases "backtrack_count b \<ge> MAX_BACKTRACKS \<or> step_count b \<ge> MAX_STEPS")
  case True
  then show ?thesis by (simp add: step_def split: sum.splits)
next
  case False
  obtain r b1 where ca: "choose_action u k b (state b) (step_count b) = (r, b1)"
    by (cases "choose_action u k b (state b) (step_count b)")
  have m1: "maze b1 = maze b"
    using choose_action_maze[of u k b "state b" "step_count b"] ca by simp
  show ?thesis
  proof (cases r)
    case (Inl e)
    then show ?thesis using ca m1 False by (simp add: step_def)
  next
    case (Inr a)
    obtain rw b2 where tm: "take_move b1 (move (state b1) (ACTIONS ! a)) = (rw, b2)"
      by (cases "take_move b1 (move (state b1) (ACTIONS ! a))")
    have m2: "maze b2 = maze b1"
      using take_move_maze[of b1 "move (state b1) (ACTIONS ! a)"] tm by simp
    show ?thesis using ca Inr tm m1 m2 False
      by (simp add: step_def split: sum.splits)
  qed
qed

lemma stuck_check_maze: "maze (snd (stuck_check b)) = maze b"
proof -
  obtain path b2 where s: "solver_solve (b\<lparr>as_start := start b, as_goal := goal b\<rparr>) = (path, b2)"
    by (cases "solver_solve (b\<lparr>as_start := start b, as_goal := goal b\<rparr>)")
  have "maze b2 = maze b"
    using solver_solve_maze[of "b\<lparr>as_start := start b, as_goal := goal b\<rparr>"] s by simp
  then show ?thesis using s by (simp add: stuck_check_def Let_def)
qed

lemma navigate_maze: "maze (snd (navigate u b)) = maze b"
proof -
  obtain acts b1 where g: "get_optimal_path b (state b) = (acts, b1)"
    by (cases "get_optimal_path b (state b)")
  have m1: "maze b1 = maze b" using get_optimal_path_maze[of b "state b"] g by simp
  show ?thesis
  proof (cases "acts \<noteq> [] \<and> u < follow_astar_prob b1")
    case True
    show ?thesis
    proof (cases "first_hint (maze b1) (dead_ends b1) (state b1) (take 3 acts)")
      case None
      then show ?thesis using g True m1 by (simp add: navigate_def explore_maze)
    next
      case (Some r)
      then show ?thesis using g True m1
        by (cases r) (auto simp add: navigate_def commit_hint_maze)
    qed
  next
    case False
    then have "navigate u b = explore b1" using g by (auto simp add: navigate_def)
    then show ?thesis using m1 by (simp add: explore_maze)
  qed
qed

text \<open>
  C9. A call of \<open>MazeBot.step\<close> or of \<open>EnhancedMazeBot.step\<close> leaves every cell code of
  the maze unchanged, whatever the bot's state and the random draws, also when the call
  raises: only the bot's own fields are written.
\<close>

theorem step_leaves_maze_unchanged:
  "maze (snd (step u k b)) = maze b \<and> maze (snd (enhanced_step v e)) = maze e"
  by (simp add: step_maze enhanced_step_def stuck_check_maze navigate_maze)

section \<open>Returned positions are valid cells\<close>

lemma take_move_state:
  "is_valid (maze b) (state b) \<Longrightarrow> is_valid (maze b) (state (snd (take_move b ns)))"
  by (simp add: take_move_def Let_def)

lemma choose_action_state: "state (snd (choose_action u k b st n)) = state b"
  by (simp add: choose_action_def Let_def split: sum.splits)

lemma step_position_valid:
  assumes v: "is_valid (maze b) (state b)" and r: "fst (step u k b) = Inr (Position p)"
  shows "is_valid (maze b) p"
proof (cases "backtrack_count b \<ge> MAX_BACKTRACKS \<or> step_count b \<ge> MAX_STEPS")
  case True
  then show ?thesis using v r by (auto simp add: step_def split: sum.splits if_splits)
next
  case False
  obtain x b1 where ca: "choose_action u k b (state b) (step_count b) = (x, b1)"
    by (cases "choose_action u k b (state b) (step_count b)")
  have m1: "maze b1 = maze b"
    using choose_action_maze[of u k b "state b" "step_count b"] ca by simp
  have s1: "state b1 = state b"
    using choose_action_state[of u k b "state b" "step_count b"] ca by simp
  show ?thesis
  proof (cases x)
    case (Inl e)
    then show ?thesis using ca r False by (simp add: step_def)
  next
    case (Inr a)
    obtain rw b2 where tm: "take_move b1 (move (state b1) (ACTIONS ! a)) = (rw, b2)"
      by (cases "take_move b1 (move (state b1) (ACTIONS ! a))")
    have "is_valid (maze b1) (state b2)"
      using take_move_state[of b1 "move (state b1) (ACTIONS ! a)"] tm v m1 s1 by simp
    then show ?thesis using ca Inr tm m1 False r
      by (auto simp add: step_def split: sum.splits if_splits)
  qed
qed

lemma solver_solve_state: "state (snd (solver_solve b)) = state b"
  by (simp add: solver_solve_def Let_def)

lemma first_hint_valid: "first_hint m de st acts = Some (Inr (a, ns)) \<Longrightarrow> is_valid m ns"
  by (induction acts) (auto simp add: Let_def split: if_splits)

lemma commit_hint_position: "fst (commit_hint b a ns) = Inr (Position p) \<Longrightarrow> p = ns"
  by (auto simp add: commit_hint_def Let_def split: sum.splits)

lemma commit_explore_position: "fst (commit_explore b a ns) = Inr (Position p) \<Longrightarrow> p = ns"
  by (auto simp add: commit_explore_def Let_def split: sum.splits prod.splits)

lemma best_action_mem: "best_action a as \<in> set (a # as)"
  by (induction as arbitrary: a) (auto split: if_splits)

lemma valid_actions_valid: "(i, ns, s) \<in> set (valid_actions b) \<Longrightarrow> is_valid (maze b) ns"
  by (auto simp add: valid_actions_def)

lemma escape_position:
  "is_valid (maze b) (state b) \<Longrightarrow> fst (escape b) = Inr (Position p) \<Longrightarrow> is_valid (maze b) p"
  by (auto simp add: escape_def Let_def split: option.splits dest: find_Some_iff[THEN iffD1])

lemma explore_position:
  assumes "is_valid (maze b) (state b)" "fst (explore b) = Inr (Position p)"
  shows "is_valid (maze b) p"
proof (cases "valid_actions b")
  case Nil
  then show ?thesis using assms by (simp add: explore_def escape_position)
next
  case (Cons x xs)
  obtain i ns s where ba: "best_action x xs = (i, ns, s)" by (cases "best_action x xs")
  then have "(i, ns, s) \<in> set (valid_actions b)" using best_action_mem[of x xs] Cons by simp
  then have "is_valid (maze b) ns" by (rule valid_actions_valid)
  moreover have "p = ns" using assms(2) Cons ba by (simp add: explore_def commit_explore_position)
  ultimately show ?thesis by simp
qed

lemma get_action_sequence_state: "state (snd (get_action_sequence b)) = state b"
  by (simp add: get_action_sequence_def Let_def solver_solve_state)

lemma get_optimal_path_state: "state (snd (get_optimal_path b p)) = state b"
proof (cases "a_star_cache b (p, goal b)")
  case (Some acts)
  then show ?thesis by (simp add: get_optimal_path_def)
next
  case None
  from get_optimal_path_unfold[OF None] obtain acts b3 where
    g: "get_action_sequence (snd (solver_solve (b\<lparr>as_start := p, as_path := []\<rparr>))) = (acts, b3)"
    and e: "get_optimal_path b p = (acts, b3\<lparr>a_star_cache := (a_star_cache b3)((p, goal b) \<mapsto> acts)\<rparr>)"
    by blast
  have "state b3 = state (snd (solver_solve (b\<lparr>as_start := p, as_path := []\<rparr>)))"
    using get_action_sequence_state[of "snd (solver_solve (b\<lparr>as_start := p, as_path := []\<rparr>))"] g by simp
  then show ?thesis using e by (simp add: solver_solve_state)
qed

lemma stuck_check_position:
  assumes "fst (stuck_check b) = Inr (Position p)"
  shows "p = state b"
proof -
  obtain path b2 where s: "solver_solve (b\<lparr>as_start := start b, as_goal := goal b\<rparr>) = (path, b2)"
    by (cases "solver_solve (b\<lparr>as_start := start b, as_goal := goal b\<rparr>)")
  have "state b2 = state b"
    using solver_solve_state[of "b\<lparr>as_start := start b, as_goal := goal b\<rparr>"] s by simp
  then show ?thesis using s assms by (auto simp add: stuck_check_def Let_def split: if_splits)
qed

lemma navigate_position_valid:
  assumes v: "is_valid (maze b) (state b)" and r: "fst (navigate u b) = Inr (Position p)"
  shows "is_valid (maze b) p"
proof -
  obtain acts b1 where g: "get_optimal_path b (state b) = (acts, b1)"
    by (cases "get_optimal_path b (state b)")
  have m1: "maze b1 = maze b" using get_optimal_path_maze[of b "state b"] g by simp
  have s1: "state b1 = state b" using get_optimal_path_state[of b "state b"] g by simp
  have ex: "fst (explore b1) = Inr (Position p) \<Longrightarrow> is_valid (maze b) p"
    using explore_position[of b1 p] v m1 s1 by simp
  show ?thesis
  proof (cases "acts \<noteq> [] \<and> u < follow_astar_prob b1")
    case True
    show ?thesis
    proof (cases "first_hint (maze b1) (dead_ends b1) (state b1) (take 3 acts)")
      case None
      then show ?thesis using g True r ex by (simp add: navigate_def)
    next
      case (Some x)
      show ?thesis
      proof (cases x)
        case (Inl e)
        then show ?thesis using Some g True r by (simp add: navigate_def)
      next
        case (Inr y)
        obtain a ns where y: "y = (a, ns)" by (cases y)
        have "is_valid (maze b1) ns" using first_hint_valid Some Inr y by blast
        moreover have "p = ns"
          using Some Inr y g True r by (simp add: navigate_def commit_hint_position)
        ultimately show ?thesis using m1 by simp
      qed
    qed
  next
    case False
    then have "navigate u b = explore b1" using g by (auto simp add: navigate_def)
    then show ?thesis using ex r by simp
  qed
qed

lemma enhanced_step_position_valid:
  assumes "is_valid (maze b) (state b)" "fst (enhanced_step u b) = Inr (Position p)"
  shows "is_valid (maze b) p"
  using assms stuck_check_position[of b p] navigate_position_valid[of b u p]
  by (auto simp add: enhanced_step_def split: if_splits)

lemma not_stuck_initially:
  assumes "backtrack_count b \<le> 0" "step_count b < MAX_STEPS"
  shows "\<not> stuck b"
proof -
  have "0 \<le> 5 * sqrt (real (height (maze b) * width (maze b)))" by simp
  then show ?thesis using assms unfolding stuck_def by linarith
qed

lemma new_enhanced_corner_not_stuck: "\<not> stuck (new_enhanced_bot maze_corner 1 (0, 0) (1, 2))"
  by (rule not_stuck_initially) (simp_all add: new_enhanced_bot_def MAX_STEPS_def)

lemma new_corner_navigate:
  "fst (navigate 0 (new_enhanced_bot maze_corner 1 (0, 0) (1, 2))) = Inr (Position (1, 0))"
  by code_simp

lemma new_bottom_step:
  "fst (step 0.5 0 (new_maze_bot maze_bottom 1 (2, 1) (2, 2))) = Inr (Position (2, 1))"
  by code_simp

text \<open>
  C10. If the bot's current position is within the grid and not a wall, every position
  returned by \<open>MazeBot.step\<close> or \<open>EnhancedMazeBot.step\<close> is within the grid and not a
  wall.
\<close>

theorem returned_position_is_valid:
  assumes "is_valid (maze b) (state b)" and "is_valid (maze e) (state e)"
  shows "(fst (step u k b) = Inr (Position p) \<longrightarrow> is_valid (maze b) p)
       \<and> (fst (enhanced_step v e) = Inr (Position q) \<longrightarrow> is_valid (maze e) q)"
  using assms step_position_valid[of b u k p] enhanced_step_position_valid[of e v q] by blast

theorem returned_position_is_valid_witness:
  "is_valid (maze (new_maze_bot maze_bottom 1 (2, 1) (2, 2))) (state (new_maze_bot maze_bottom 1 (2, 1) (2, 2)))
   \<and> is_valid (maze (new_enhanced_bot maze_corner 1 (0, 0) (1, 2))) (state (new_enhanced_bot maze_corner 1 (0, 0) (1, 2)))
   \<and> fst (step 0.5 0 (new_maze_bot maze_bottom 1 (2, 1) (2, 2))) = Inr (Position (2, 1))
   \<and> is_valid (maze (new_maze_bot maze_bottom 1 (2, 1) (2, 2))) (2, 1)
   \<and> fst (enhanced_step 0 (new_enhanced_bot maze_corner 1 (0, 0) (1, 2))) = Inr (Position (1, 0))
   \<and> is_valid (maze (new_enhanced_bot maze_corner 1 (0, 0) (1, 2))) (1, 0)"
proof -
  have a: "is_valid (maze (new_maze_bot maze_bottom 1 (2, 1) (2, 2))) (state (new_maze_bot maze_bottom 1 (2, 1) (2, 2)))"
    by code_simp
  have b: "is_valid (maze (new_enhanced_bot maze_corner 1 (0, 0) (1, 2))) (state (new_enhanced_bot maze_corner 1 (0, 0) (1, 2)))"
    by code_simp
  have c: "fst (enhanced_step 0 (new_enhanced_bot maze_corner 1 (0, 0) (1, 2))) = Inr (Position (1, 0))"
    by (simp add: enhanced_step_def new_enhanced_corner_not_stuck new_corner_navigate)
  show ?thesis
    using returned_position_is_valid[OF a b, of "0.5" 0 "(2, 1)" 0 "(1, 0)"] a b c new_bottom_step
    by blast
qed

section \<open>The solver on a maze with a detour\<close>

text \<open>
  C2. \<open>AStarMazeSolver.solve\<close> is to return a shortest 4-connected wall-free path. On
  the maze \<open>maze_detour\<close>, from the START cell (0, 2) to the GOAL cell (6, 2), it returns
  a path of 13 cells, although a path of 11 cells exists: an entry of the open set keeps
  the priority it was pushed with when a shorter way to its cell is found later.
\<close>

theorem solve_returns_longer_path:
  "solve maze_detour (0, 2) (6, 2) =
     [(0, 2), (0, 3), (1, 3), (2, 3), (3, 3), (4, 3), (4, 2), (4, 1), (4, 0), (5, 0), (6, 0),
      (6, 1), (6, 2)]
   \<and> is_path maze_detour (0, 2) (6, 2)
       [(0, 2), (0, 1), (0, 0), (1, 0), (2, 0), (3, 0), (4, 0), (5, 0), (6, 0), (6, 1), (6, 2)]
   \<and> first_where maze_detour START = Inr (0, 2)
   \<and> first_where maze_detour GOAL = Inr (6, 2)"
  by code_simp

section \<open>MazeBot.step on the bottom row\<close>

text \<open>
  C5. \<open>MazeBot.step\<close> is never to raise. On the maze \<open>maze_bottom\<close>, whose START cell
  (2, 1) lies in the last row, a new bot that exploits twice (draws 0.5, above epsilon)
  first tries the wall above, then the move below the grid; \<open>update_q_table\<close> then
  reads the Q-table at row 3 of 3 and raises IndexError.
\<close>

theorem step_raises_index_error:
  "first_where maze_bottom START = Inr (2, 1)
   \<and> first_where maze_bottom GOAL = Inr (2, 2)
   \<and> fst (step 0.5 0 (new_maze_bot maze_bottom 1 (2, 1) (2, 2))) = Inr (Position (2, 1))
   \<and> fst (step 0.5 0 (snd (step 0.5 0 (new_maze_bot maze_bottom 1 (2, 1) (2, 2))))) = Inl IndexError"
  by code_simp

section \<open>Smart exploration\<close>

lemma min_by_count_mem: "min_by_count a as \<in> set (a # as)"
  by (induction as arbitrary: a) (auto split: if_splits)

lemma min_by_count_le: "x \<in> set (a # as) \<Longrightarrow> snd (min_by_count a as) \<le> snd x"
proof (induction as arbitrary: a x)
  case Nil
  then show ?case by simp
next
  case (Cons b bs)
  let ?c = "if snd b < snd a then b else a"
  have c: "snd ?c \<le> snd a" "snd ?c \<le> snd b" by auto
  have r: "snd (min_by_count ?c bs) \<le> snd ?c" using Cons.IH[of ?c ?c] by simp
  from Cons.prems consider "x = a" | "x = b" | "x \<in> set bs" by auto
  then show ?case
  proof cases
    case 1 then show ?thesis using c r by simp
  next
    case 2 then show ?thesis using c r by simp
  next
    case 3 then show ?thesis using Cons.IH[of x ?c] by simp
  qed
qed

lemma min_by_count_first:
  "sorted_wrt (<) (map fst (a # as)) \<Longrightarrow> x \<in> set (a # as) \<Longrightarrow>
   fst x < fst (min_by_count a as) \<Longrightarrow> snd (min_by_count a as) < snd x"
proof (induction as arbitrary: a x)
  case Nil
  then show ?case by simp
next
  case (Cons b bs)
  let ?c = "if snd b < snd a then b else a"
  let ?r = "min_by_count ?c bs"
  have srt: "sorted_wrt (<) (map fst (?c # bs))" using Cons.prems(1) by auto
  have rmem: "?r \<in> set (?c # bs)" by (rule min_by_count_mem)
  have rle: "snd ?r \<le> snd ?c" using min_by_count_le[of ?c ?c bs] by simp
  have ab: "fst a < fst b" using Cons.prems(1) by simp
  have abs: "\<forall>y\<in>set bs. fst b < fst y" using Cons.prems(1) by simp
  from Cons.prems(2) consider "x = ?c" | "x \<noteq> ?c" "x = a" | "x \<noteq> ?c" "x = b" | "x \<in> set bs" by auto
  then show ?case
  proof cases
    case 1
    then show ?thesis using Cons.IH[OF srt, of x] Cons.prems(3) by simp
  next
    case 2
    then have "snd b < snd a" by (auto split: if_splits)
    then show ?thesis using rle 2 by simp
  next
    case 3
    then have c: "?c = a" "snd a \<le> snd b" by (auto split: if_splits)
    have "fst b < fst ?r" using Cons.prems(3) 3 by simp
    then have "fst a < fst ?r" using ab by simp
    then have "snd ?r < snd a" using Cons.IH[OF srt, of a] c by simp
    then show ?thesis using c 3 by simp
  next
    case 4
    then show ?thesis using Cons.IH[OF srt, of x] Cons.prems(3) by simp
  qed
qed

lemma explore_candidates_sorted: "sorted_wrt (<) (map fst (explore_candidates q vc st))"
proof -
  have "map fst (explore_candidates q vc st) =
        filter (\<lambda>idx. in_shape q (move st (ACTIONS ! idx))) [0..<length ACTIONS]"
    by (simp add: explore_candidates_def comp_def)
  then show ?thesis by (simp add: sorted_wrt_filter)
qed

lemma explore_candidates_iff:
  "(j, c) \<in> set (explore_candidates q vc st) \<longleftrightarrow>
     j < length ACTIONS \<and> in_shape q (move st (ACTIONS ! j)) \<and> c = visits vc (move st (ACTIONS ! j))"
  by (auto simp add: explore_candidates_def)

text \<open>
  C7 (amended). \<open>QLearningAgent.explore_action\<close> checks the bounds of the Q-table only;
  it has no access to the maze. Whenever some action leads to a cell within the bounds,
  the returned action leads to a cell within the bounds whose visit count is least among
  all such cells, and every earlier action with a target within the bounds has a
  strictly greater count (ties go to the first enumerated action).
\<close>

theorem explore_action_least_visited:
  assumes "j < length ACTIONS" and "in_shape q (move st (ACTIONS ! j))"
  shows "explore_action q vc st k < length ACTIONS
       \<and> in_shape q (move st (ACTIONS ! explore_action q vc st k))
       \<and> visits vc (move st (ACTIONS ! explore_action q vc st k)) \<le> visits vc (move st (ACTIONS ! j))
       \<and> (j < explore_action q vc st k \<longrightarrow>
            visits vc (move st (ACTIONS ! explore_action q vc st k)) < visits vc (move st (ACTIONS ! j)))"
proof -
  have jm: "(j, visits vc (move st (ACTIONS ! j))) \<in> set (explore_candidates q vc st)"
    using assms by (simp add: explore_candidates_iff)
  then obtain a as where c: "explore_candidates q vc st = a # as"
    by (cases "explore_candidates q vc st") auto
  let ?r = "min_by_count a as"
  have e: "explore_action q vc st k = fst ?r" using c by (simp add: explore_action_def)
  have "?r \<in> set (explore_candidates q vc st)" using min_by_count_mem[of a as] c by simp
  then have rm: "(fst ?r, snd ?r) \<in> set (explore_candidates q vc st)" by simp
  have r: "fst ?r < length ACTIONS" "in_shape q (move st (ACTIONS ! fst ?r))"
    "snd ?r = visits vc (move st (ACTIONS ! fst ?r))"
    using rm unfolding explore_candidates_iff by blast+
  have le: "snd ?r \<le> visits vc (move st (ACTIONS ! j))"
    using min_by_count_le[of "(j, visits vc (move st (ACTIONS ! j)))" a as] jm c by simp
  have lt: "j < fst ?r \<Longrightarrow> snd ?r < visits vc (move st (ACTIONS ! j))"
    using min_by_count_first[of a as "(j, visits vc (move st (ACTIONS ! j)))"]
      explore_candidates_sorted[of q vc st] jm c by simp
  show ?thesis using e r le lt by simp
qed

theorem explore_action_least_visited_witness:
  "(2::nat) < length ACTIONS \<and> in_shape (zeros 3 4) (move (2, 1) (ACTIONS ! 2))
   \<and> explore_action (zeros 3 4) [(1, 1) \<mapsto> 2] (2, 1) 0 = 2
   \<and> (0::nat) < length ACTIONS \<and> in_shape (zeros 3 4) (move (2, 1) (ACTIONS ! 0))
   \<and> visits [(1, 1) \<mapsto> 2] (move (2, 1) (ACTIONS ! 2)) < visits [(1, 1) \<mapsto> 2] (move (2, 1) (ACTIONS ! 0))"
proof -
  have a: "(0::nat) < length ACTIONS" "in_shape (zeros 3 4) (move (2, 1) (ACTIONS ! 0))"
    by code_simp+
  have b: "(2::nat) < length ACTIONS \<and> in_shape (zeros 3 4) (move (2, 1) (ACTIONS ! 2))"
    by code_simp
  have c: "explore_action (zeros 3 4) [(1, 1) \<mapsto> 2] (2, 1) 0 = 2"
    by code_simp
  show ?thesis
    using explore_action_least_visited[OF a, of "[(1, 1) \<mapsto> 2]" 0] a b c by simp
qed

text \<open>
  C7 as stated fails: on \<open>maze_bottom\<close>, from the cell (2, 1), which has the valid
  neighbour (2, 2), \<open>explore_action\<close> returns Up, and the cell above is a wall.
\<close>

theorem explore_action_into_wall:
  "in_bounds maze_bottom (2, 1)
   \<and> is_valid maze_bottom (move (2, 1) (ACTIONS ! 3))
   \<and> explore_action (zeros (height maze_bottom) (width maze_bottom)) Map.empty (2, 1) 0 = 0
   \<and> in_bounds maze_bottom (move (2, 1) (ACTIONS ! 0))
   \<and> cell maze_bottom (move (2, 1) (ACTIONS ! 0)) = WALL"
  by code_simp

section \<open>The stuck check\<close>

lemma scale_q_entry:
  "r < length q \<Longrightarrow> c < length (q ! r) \<Longrightarrow> a < length (q ! r ! c) \<Longrightarrow>
   scale_q f q ! r ! c ! a = q ! r ! c ! a * f"
  by (simp add: scale_q_def)

lemma scale_q_shape:
  "length (scale_q f q) = length q"
  "r < length q \<Longrightarrow> length (scale_q f q ! r) = length (q ! r)"
  "r < length q \<Longrightarrow> c < length (q ! r) \<Longrightarrow> length (scale_q f q ! r ! c) = length (q ! r ! c)"
  by (simp_all add: scale_q_def)

lemma stuck_check_result:
  "stuck_check b =
     (if solve (maze b) (start b) (goal b) = []
      then (Inr Regenerate, b\<lparr>as_start := start b, as_goal := goal b\<rparr>)
      else (Inr (Position (state b)),
            b\<lparr>as_start := start b, as_goal := goal b,
              as_path := solve (maze b) (start b) (goal b),
              q_table := scale_q 0.9 (q_table b), backtrack_count := 0, step_count := 0\<rparr>))"
  by (simp add: stuck_check_def solver_solve_def Let_def)

text \<open>
  C3. Whenever \<open>EnhancedMazeBot.step\<close> is called with the backtrack counter above
  \<open>5 * sqrt(width * height)\<close> or the step counter at least \<open>MAX_STEPS\<close>, in a state
  whose position is joined to the START cell by a walk \<open>ps\<close> of valid cells (the bot
  starts on START and only ever moves to a valid neighbouring cell, lemmas
  \<open>run_inv_new\<close> and \<open>run_inv_step\<close>), the step answers as
  the solver does from the bot's current position: if the solver finds no path from there
  to the goal, the result is "regenerate"; if it finds one, every entry of the Q-table is
  multiplied by 0.9, both counters are reset to zero and the unchanged current position is
  returned. The source starts the solver on \<open>self.start\<close>; by \<open>solve_same_component\<close>
  the two searches find a path or find none together.
\<close>

theorem stuck_check_from_position:
  assumes "stuck b" and "is_path (maze b) (start b) (state b) ps"
  shows "(solve (maze b) (state b) (goal b) = [] \<longrightarrow> fst (enhanced_step u b) = Inr Regenerate)
       \<and> (solve (maze b) (state b) (goal b) \<noteq> [] \<longrightarrow>
            fst (enhanced_step u b) = Inr (Position (state b))
            \<and> state (snd (enhanced_step u b)) = state b
            \<and> backtrack_count (snd (enhanced_step u b)) = 0
            \<and> step_count (snd (enhanced_step u b)) = 0
            \<and> length (q_table (snd (enhanced_step u b))) = length (q_table b)
            \<and> (\<forall>r < length (q_table b).
                 length (q_table (snd (enhanced_step u b)) ! r) = length (q_table b ! r)
                 \<and> (\<forall>c < length (q_table b ! r).
                      length (q_table (snd (enhanced_step u b)) ! r ! c) = length (q_table b ! r ! c)
                      \<and> (\<forall>a < length (q_table b ! r ! c).
                           q_table (snd (enhanced_step u b)) ! r ! c ! a
                             = q_table b ! r ! c ! a * 0.9))))"
proof -
  have "solve (maze b) (start b) (goal b) = [] \<longleftrightarrow> solve (maze b) (state b) (goal b) = []"
    using solve_same_component[OF assms(2)] .
  then show ?thesis
    using assms(1)
    by (simp add: enhanced_step_def stuck_check_result scale_q_entry scale_q_shape)
qed

lemma stuck_blocked: "stuck bot_blocked"
  by (simp add: stuck_def bot_blocked_def MAX_STEPS_def)

lemma stuck_late: "stuck bot_late"
  by (simp add: stuck_def bot_late_def MAX_STEPS_def)

lemma path_blocked:
  "is_path (maze bot_blocked) (start bot_blocked) (state bot_blocked) [(0, 0), (0, 1)]"
  by code_simp

lemma path_late: "is_path (maze bot_late) (start bot_late) (state bot_late) [(0, 0), (1, 0)]"
  by code_simp

lemma solve_blocked: "solve (maze bot_blocked) (state bot_blocked) (goal bot_blocked) = []"
  by code_simp

lemma solve_late: "solve (maze bot_late) (state bot_late) (goal bot_late) = [(1, 0), (1, 1), (1, 2)]"
  by code_simp

theorem stuck_check_from_position_witness:
  "stuck bot_blocked
   \<and> is_path (maze bot_blocked) (start bot_blocked) (state bot_blocked) [(0, 0), (0, 1)]
   \<and> solve (maze bot_blocked) (state bot_blocked) (goal bot_blocked) = []
   \<and> fst (enhanced_step 0 bot_blocked) = Inr Regenerate
   \<and> stuck bot_late
   \<and> is_path (maze bot_late) (start bot_late) (state bot_late) [(0, 0), (1, 0)]
   \<and> solve (maze bot_late) (state bot_late) (goal bot_late) \<noteq> []
   \<and> fst (enhanced_step 0 bot_late) = Inr (Position (1, 0))
   \<and> step_count (snd (enhanced_step 0 bot_late)) = 0
   \<and> (0::nat) < length (q_table bot_late) \<and> (0::nat) < length (q_table bot_late ! 0)
   \<and> (0::nat) < length (q_table bot_late ! 0 ! 0)
   \<and> q_table (snd (enhanced_step 0 bot_late)) ! 0 ! 0 ! 0 = q_table bot_late ! 0 ! 0 ! 0 * 0.9"
proof -
  have s: "state bot_late = (1, 0)" by (simp add: bot_late_def new_enhanced_bot_def)
  have l: "(0::nat) < length (q_table bot_late) \<and> (0::nat) < length (q_table bot_late ! 0)
     \<and> (0::nat) < length (q_table bot_late ! 0 ! 0)"
    by code_simp
  have n: "solve (maze bot_late) (state bot_late) (goal bot_late) \<noteq> []" by (simp add: solve_late)
  show ?thesis
    using stuck_check_from_position[OF stuck_blocked path_blocked, of 0]
      stuck_check_from_position[OF stuck_late path_late, of 0]
      stuck_blocked stuck_late path_blocked path_late solve_blocked n s l
    by simp
qed

section \<open>Following the hint\<close>

lemma solver_solve_only_path: "\<exists>p. snd (solver_solve b) = b\<lparr>as_path := p\<rparr>"
proof (cases "solve (maze b) (as_start b) (as_goal b) = []")
  case True
  then have "snd (solver_solve b) = b\<lparr>as_path := as_path b\<rparr>" by (simp add: solver_solve_def)
  then show ?thesis by blast
next
  case False
  then show ?thesis by (auto simp add: solver_solve_def Let_def)
qed

lemma get_action_sequence_only_path: "\<exists>p. snd (get_action_sequence b) = b\<lparr>as_path := p\<rparr>"
proof (cases "as_path b = []")
  case True
  then show ?thesis using solver_solve_only_path[of b] by (simp add: get_action_sequence_def Let_def)
next
  case False
  then have "snd (get_action_sequence b) = b\<lparr>as_path := as_path b\<rparr>"
    by (simp add: get_action_sequence_def)
  then show ?thesis by blast
qed











lemma get_optimal_path_hint:
  assumes "cache_fits b"
  shows "fst (get_optimal_path b p) = actions_of_path (solve (maze b) p (goal b))"
proof (cases "a_star_cache b (p, goal b)")
  case (Some acts)
  then have "acts = actions_of_path (solve (maze b) p (goal b))"
    using assms unfolding cache_fits_def by blast
  then show ?thesis using Some by (simp add: get_optimal_path_def)
next
  case None
  let ?b1 = "b\<lparr>as_start := p, as_path := []\<rparr>"
  let ?p = "solve (maze b) p (goal b)"
  have g: "as_goal b = goal b" using assms by (simp add: cache_fits_def)
  have s: "solve (maze ?b1) (as_start ?b1) (as_goal ?b1) = ?p" using g by simp
  have "fst (get_action_sequence (snd (solver_solve ?b1))) = actions_of_path ?p"
  proof (cases "?p = []")
    case True
    then have "snd (solver_solve ?b1) = ?b1" using s by (simp add: solver_solve_def Let_def)
    then show ?thesis using True s by (simp add: get_action_sequence_def solver_solve_def Let_def)
  next
    case False
    then have "snd (solver_solve ?b1) = ?b1\<lparr>as_path := ?p\<rparr>"
      using s by (simp add: solver_solve_def Let_def)
    then show ?thesis using False by (simp add: get_action_sequence_def Let_def)
  qed
  then show ?thesis using None by (simp add: get_optimal_path_def Let_def case_prod_beta)
qed





section \<open>The states of a run\<close>

lemma q_fits_nth:
  "q_fits q m \<longleftrightarrow>
     length q = height m
     \<and> (\<forall>i<length q. length (q ! i) = width m \<and> (\<forall>j<length (q ! i). length (q ! i ! j) = length ACTIONS))"
  by (simp add: q_fits_def list_all_length)

lemma q_fits_scale: "q_fits q m \<Longrightarrow> q_fits (scale_q f q) m"
  by (simp add: q_fits_nth scale_q_def)

lemma list_update_lengths:
  assumes "\<forall>i<length q. length (q ! i) = w \<and> (\<forall>j<length (q ! i). length (q ! i ! j) = k)"
  shows "\<forall>ia<length q. length (q[i := (q ! i)[j := (q ! i ! j)[a := x]]] ! ia) = w
           \<and> (\<forall>ja<length (q[i := (q ! i)[j := (q ! i ! j)[a := x]]] ! ia).
                 length (q[i := (q ! i)[j := (q ! i ! j)[a := x]]] ! ia ! ja) = k)"
proof (intro allI impI)
  fix ia assume ia: "ia < length q"
  show "length (q[i := (q ! i)[j := (q ! i ! j)[a := x]]] ! ia) = w
           \<and> (\<forall>ja<length (q[i := (q ! i)[j := (q ! i ! j)[a := x]]] ! ia).
                 length (q[i := (q ! i)[j := (q ! i ! j)[a := x]]] ! ia ! ja) = k)"
  proof (cases "ia = i")
    case False
    then show ?thesis using assms ia by simp
  next
    case True
    have e: "q[i := (q ! i)[j := (q ! i ! j)[a := x]]] ! ia = (q ! i)[j := (q ! i ! j)[a := x]]"
      using True ia by simp
    have "length ((q ! i)[j := (q ! i ! j)[a := x]] ! ja) = k" if "ja < length (q ! i)" for ja
      using that assms ia True by (cases "ja = j") simp_all
    then show ?thesis unfolding e using assms ia True by simp
  qed
qed

lemma q_fits_update:
  assumes "q_fits q m" "update_q_table q s a r ns = Inr q'"
  shows "q_fits q' m"
proof -
  obtain i j x where q': "q' = q[i := (q ! i)[j := (q ! i ! j)[a := x]]]"
    using assms(2)
    by (auto simp add: update_q_table_def Let_def split: sum.splits option.splits if_splits)
  have "\<forall>i<length q. length (q ! i) = width m \<and> (\<forall>j<length (q ! i). length (q ! i ! j) = length ACTIONS)"
    using assms(1) by (simp add: q_fits_nth)
  from list_update_lengths[OF this, of i j a x] show ?thesis
    using assms(1) unfolding q' q_fits_nth by simp
qed

lemma get_optimal_path_result:
  assumes "cache_fits b"
  shows "\<exists>s pth c. snd (get_optimal_path b x) = b\<lparr>as_start := s, as_path := pth, a_star_cache := c\<rparr>
           \<and> (\<forall>y acts. c (y, goal b) = Some acts \<longrightarrow> acts = actions_of_path (solve (maze b) y (goal b)))"
proof (cases "a_star_cache b (x, goal b)")
  case (Some acts)
  then have "snd (get_optimal_path b x) = b\<lparr>as_start := as_start b, as_path := as_path b, a_star_cache := a_star_cache b\<rparr>"
    by (simp add: get_optimal_path_def)
  then show ?thesis using assms unfolding cache_fits_def by blast
next
  case None
  let ?b1 = "b\<lparr>as_start := x, as_path := []\<rparr>"
  from get_optimal_path_unfold[OF None] obtain acts b3 where
    g: "get_action_sequence (snd (solver_solve ?b1)) = (acts, b3)"
    and e: "get_optimal_path b x = (acts, b3\<lparr>a_star_cache := (a_star_cache b3)((x, goal b) \<mapsto> acts)\<rparr>)"
    by blast
  obtain p1 where p1: "snd (solver_solve ?b1) = ?b1\<lparr>as_path := p1\<rparr>"
    using solver_solve_only_path[of ?b1] by blast
  obtain p2 where p2: "b3 = (snd (solver_solve ?b1))\<lparr>as_path := p2\<rparr>"
    using get_action_sequence_only_path[of "snd (solver_solve ?b1)"] g by auto
  have a: "acts = actions_of_path (solve (maze b) x (goal b))"
    using get_optimal_path_hint[OF assms, of x] e by simp
  have s: "snd (get_optimal_path b x) = b\<lparr>as_start := x, as_path := p2, a_star_cache := (a_star_cache b)((x, goal b) \<mapsto> acts)\<rparr>"
    using e p1 p2 by simp
  have "\<forall>y as. ((a_star_cache b)((x, goal b) \<mapsto> acts)) (y, goal b) = Some as \<longrightarrow>
          as = actions_of_path (solve (maze b) y (goal b))"
    using assms a unfolding cache_fits_def by auto
  then show ?thesis using s by blast
qed

lemma run_inv_cache:
  assumes "run_inv b"
    and "\<forall>y acts. c (y, goal b) = Some acts \<longrightarrow> acts = actions_of_path (solve (maze b) y (goal b))"
  shows "run_inv (b\<lparr>as_start := s, as_path := pth, a_star_cache := c\<rparr>)"
  using assms by (simp add: run_inv_def cache_fits_def)

lemma is_path_extend:
  assumes "is_path m a b ps" "d \<in> set ACTIONS" "is_valid m (move b d)"
  shows "is_path m a (move b d) (ps @ [move b d])"
proof -
  have "is_path m b (move b d) [b, move b d]"
    using is_path_valid_ends(2)[OF assms(1)] assms(2,3) heuristic_move by (simp add: is_path_def)
  then show ?thesis using is_path_append[OF assms(1)] by fastforce
qed

lemma justified_mark:
  assumes "dead_ends_justified m g de" "count_valid_moves m c = 1" "c \<noteq> g"
  shows "dead_ends_justified m g (insert c de)"
  using assms unfolding dead_ends_justified_def by auto

lemma justified_closed:
  assumes "dead_ends_justified m g de" "c \<noteq> g"
    and "\<forall>d\<in>set ACTIONS. is_valid m (move c d) \<longrightarrow> move c d \<in> de"
  shows "dead_ends_justified m g (insert c de)"
  using assms unfolding dead_ends_justified_def by auto

lemma run_inv_mark:
  assumes "run_inv b"
  shows "run_inv (mark_dead_end b)"
proof (cases "count_valid_moves (maze b) (state b) = 1 \<and> state b \<noteq> goal b")
  case True
  then have "dead_ends_justified (maze b) (goal b) (insert (state b) (dead_ends b))"
    using justified_mark assms by (simp add: run_inv_def)
  then show ?thesis using True assms by (simp add: mark_dead_end_def run_inv_def cache_fits_def)
next
  case False
  then show ?thesis using assms by (auto simp add: mark_dead_end_def)
qed

lemma run_inv_moved:
  assumes "run_inv b" "q_fits q (maze b)" "d \<in> set ACTIONS" "is_valid (maze b) (move (state b) d)"
  shows "run_inv (b\<lparr>q_table := q, last_state := ls, state := move (state b) d,
                    visited_states := vs, step_count := sc, current_direction := cd\<rparr>)"
proof -
  obtain ps where "is_path (maze b) (start b) (state b) ps" using assms(1) by (auto simp add: run_inv_def)
  then have "is_path (maze b) (start b) (move (state b) d) (ps @ [move (state b) d])"
    using is_path_extend assms(3,4) by blast
  then show ?thesis using assms(1,2) by (auto simp add: run_inv_def cache_fits_def)
qed

lemma run_inv_commit_hint:
  assumes "run_inv b" "a < length ACTIONS" "ns = move (state b) (ACTIONS ! a)" "is_valid (maze b) ns"
  shows "run_inv (snd (commit_hint b a ns))"
proof -
  let ?r = "50 * (case current_direction b of Some cd \<Rightarrow> if ACTIONS ! a \<noteq> cd then 0.5 else 0.8 | None \<Rightarrow> 0.7)"
  show ?thesis
  proof (cases "update_q_table (q_table b) (state b) a ?r ns")
    case (Inl e)
    then show ?thesis using assms(1) by (simp add: commit_hint_def Let_def)
  next
    case (Inr q)
    have qf: "q_fits q (maze b)" using q_fits_update[OF _ Inr] assms(1) by (simp add: run_inv_def)
    have d: "ACTIONS ! a \<in> set ACTIONS" using assms(2) by simp
    have "run_inv (b\<lparr>q_table := q, last_state := Some (state b), state := move (state b) (ACTIONS ! a),
                    visited_states := insert ns (visited_states b), step_count := step_count b + 1,
                    current_direction := Some (ACTIONS ! a)\<rparr>)"
      using run_inv_moved[OF assms(1) qf d] assms(3,4) by simp
    then show ?thesis using Inr assms(3) run_inv_mark by (simp add: commit_hint_def Let_def)
  qed
qed

lemma run_inv_backtrack: "run_inv b \<Longrightarrow> run_inv (b\<lparr>backtrack_count := n\<rparr>)"
  by (simp add: run_inv_def cache_fits_def)

lemma run_inv_commit_from:
  assumes "run_inv b0" "a < length ACTIONS" "ns = move (state b0) (ACTIONS ! a)" "is_valid (maze b0) ns"
  shows "run_inv (snd (case update_q_table (q_table b0) (state b0) a r ns of
           Inl e \<Rightarrow> (Inl e, b0)
         | Inr q \<Rightarrow>
             (let b1 = b0\<lparr>q_table := q,
                          last_state := Some (state b0),
                          state := ns,
                          visited_states := insert ns (visited_states b0),
                          step_count := step_count b0 + 1,
                          current_direction := Some (ACTIONS ! a)\<rparr>
              in (Inr (Position ns), mark_dead_end b1))))"
proof (cases "update_q_table (q_table b0) (state b0) a r ns")
  case (Inl e)
  then show ?thesis using assms(1) by simp
next
  case (Inr q)
  have qf: "q_fits q (maze b0)" using q_fits_update[OF _ Inr] assms(1) by (simp add: run_inv_def)
  have d: "ACTIONS ! a \<in> set ACTIONS" using assms(2) by simp
  have "run_inv (b0\<lparr>q_table := q, last_state := Some (state b0), state := move (state b0) (ACTIONS ! a),
                    visited_states := insert ns (visited_states b0), step_count := step_count b0 + 1,
                    current_direction := Some (ACTIONS ! a)\<rparr>)"
    using run_inv_moved[OF assms(1) qf d] assms(3,4) by simp
  then show ?thesis using Inr assms(3) run_inv_mark by (simp add: Let_def)
qed

lemma run_inv_commit_explore:
  assumes "run_inv b" "a < length ACTIONS" "ns = move (state b) (ACTIONS ! a)" "is_valid (maze b) ns"
  shows "run_inv (snd (commit_explore b a ns))"
proof -
  let ?bb = "b\<lparr>backtrack_count := backtrack_count b + 1\<rparr>"
  have ib: "run_inv ?bb" using assms(1) by (rule run_inv_backtrack)
  consider (backtrack) "ns \<in> visited_states b" "last_state b = Some ns"
    | (revisit) "ns \<in> visited_states b" "last_state b \<noteq> Some ns"
    | (fresh) "ns \<notin> visited_states b"
    by blast
  then show ?thesis
  proof cases
    case backtrack
    show ?thesis
      using run_inv_commit_from[OF ib assms(2), of ns "- 60"] assms(3,4) backtrack
      by (simp add: commit_explore_def Let_def split: sum.splits)
  next
    case revisit
    show ?thesis
      using run_inv_commit_from[OF assms(1,2,3,4), of "- 30"] revisit
      by (simp add: commit_explore_def Let_def split: sum.splits)
  next
    case fresh
    show ?thesis
      using run_inv_commit_from[OF assms(1,2,3,4),
          of "real_of_int ((heuristic (state b) (goal b) - heuristic ns (goal b)) * 15)"] fresh
      by (simp add: commit_explore_def Let_def split: sum.splits)
  qed
qed

lemma run_inv_escape:
  assumes "run_inv b" "valid_actions b = []" "state b \<noteq> goal b"
  shows "run_inv (snd (escape b))"
proof -
  have "\<forall>idx<length ACTIONS. \<not> (is_valid (maze b) (move (state b) (ACTIONS ! idx))
                      \<and> move (state b) (ACTIONS ! idx) \<notin> dead_ends b)"
    using assms(2) by (auto simp add: valid_actions_def filter_empty_conv)
  then have all: "\<forall>d\<in>set ACTIONS. is_valid (maze b) (move (state b) d) \<longrightarrow> move (state b) d \<in> dead_ends b"
    by (metis in_set_conv_nth)
  have j: "dead_ends_justified (maze b) (goal b) (insert (state b) (dead_ends b))"
    using justified_closed[OF _ assms(3) all] assms(1) by (simp add: run_inv_def)
  let ?b1 = "b\<lparr>dead_ends := insert (state b) (dead_ends b)\<rparr>"
  have i1: "run_inv ?b1" using assms(1) j by (simp add: run_inv_def cache_fits_def)
  show ?thesis
  proof (cases "List.find (is_valid (maze b)) (map (move (state b)) ACTIONS)")
    case None
    then show ?thesis using i1 by (simp add: escape_def Let_def)
  next
    case (Some ns)
    then have "ns \<in> set (map (move (state b)) ACTIONS)" "is_valid (maze b) ns"
      by (auto simp add: find_Some_iff)
    then obtain d where d: "d \<in> set ACTIONS" "ns = move (state b) d" by auto
    obtain ps where "is_path (maze b) (start b) (state b) ps" using assms(1) by (auto simp add: run_inv_def)
    then have "is_path (maze b) (start b) ns (ps @ [ns])"
      using is_path_extend d \<open>is_valid (maze b) ns\<close> by blast
    then have "run_inv (?b1\<lparr>state := ns, step_count := step_count ?b1 + 1\<rparr>)"
      using i1 by (auto simp add: run_inv_def cache_fits_def)
    then show ?thesis using Some by (simp add: escape_def Let_def)
  qed
qed

lemma run_inv_explore:
  assumes "run_inv b" "state b \<noteq> goal b"
  shows "run_inv (snd (explore b))"
proof (cases "valid_actions b")
  case Nil
  then show ?thesis using run_inv_escape[OF assms(1) Nil assms(2)] by (simp add: explore_def)
next
  case (Cons x xs)
  obtain a ns sc where best: "best_action x xs = (a, ns, sc)" by (cases "best_action x xs") auto
  have "(a, ns, sc) \<in> set (valid_actions b)" using best_action_mem[of x xs] best Cons by simp
  then have "a < length ACTIONS" "ns = move (state b) (ACTIONS ! a)" "is_valid (maze b) ns"
    by (auto simp add: valid_actions_def)
  then show ?thesis using run_inv_commit_explore[OF assms(1)] Cons best by (simp add: explore_def)
qed

lemma first_hint_move:
  "first_hint m de st acts = Some (Inr (a, ns)) \<Longrightarrow> a < length ACTIONS \<and> ns = move st (ACTIONS ! a)"
  by (induction acts) (auto simp add: Let_def split: if_splits)

text \<open>
  The properties assumed of a state by the theorems on the stuck check and on the hint
  hold in every state of a run: they hold of a new bot, and a call of \<open>step\<close> on a bot
  that is not on the goal keeps them.
\<close>

lemma run_inv_new:
  assumes "is_valid m s"
  shows "run_inv (new_enhanced_bot m lvl s g)"
proof -
  have "q_fits (zeros (height m) (width m)) m" by (simp add: q_fits_nth zeros_def)
  moreover have "is_path m s s [s]" using assms by (simp add: is_path_def)
  ultimately show ?thesis
    by (auto simp add: run_inv_def new_enhanced_bot_def cache_fits_def dead_ends_justified_def)
qed

lemma run_inv_step:
  assumes "run_inv b" "state b \<noteq> goal b"
  shows "run_inv (snd (enhanced_step u b))"
proof (cases "stuck b")
  case True
  have "run_inv (snd (stuck_check b))"
    using assms(1) q_fits_scale
    by (simp add: stuck_check_result run_inv_def cache_fits_def)
  then show ?thesis using True by (simp add: enhanced_step_def)
next
  case False
  have cf: "cache_fits b" using assms(1) by (simp add: run_inv_def)
  obtain acts b1 where g: "get_optimal_path b (state b) = (acts, b1)"
    by (cases "get_optimal_path b (state b)") auto
  obtain s pth c where b1: "b1 = b\<lparr>as_start := s, as_path := pth, a_star_cache := c\<rparr>"
    and c: "\<forall>y acts. c (y, goal b) = Some acts \<longrightarrow> acts = actions_of_path (solve (maze b) y (goal b))"
    using get_optimal_path_result[OF cf, of "state b"] g by auto
  have i1: "run_inv b1" unfolding b1 using run_inv_cache[OF assms(1) c] .
  have s1: "state b1 \<noteq> goal b1" using assms(2) by (simp add: b1)
  have ex: "run_inv (snd (explore b1))" using run_inv_explore[OF i1 s1] .
  have "run_inv (snd (navigate u b))"
  proof (cases "acts \<noteq> [] \<and> u < follow_astar_prob b1")
    case False
    then show ?thesis using g ex by (auto simp add: navigate_def)
  next
    case True
    show ?thesis
    proof (cases "first_hint (maze b1) (dead_ends b1) (state b1) (take 3 acts)")
      case None
      then show ?thesis using g True ex by (simp add: navigate_def)
    next
      case (Some r)
      show ?thesis
      proof (cases r)
        case (Inl e)
        then show ?thesis using g True Some i1 by (simp add: navigate_def)
      next
        case (Inr an)
        obtain a ns where an: "an = (a, ns)" by (cases an)
        have fh: "first_hint (maze b1) (dead_ends b1) (state b1) (take 3 acts) = Some (Inr (a, ns))"
          using Some Inr an by simp
        have "run_inv (snd (commit_hint b1 a ns))"
          using run_inv_commit_hint[OF i1] first_hint_move[OF fh] first_hint_valid[OF fh] by simp
        then show ?thesis using g True fh by (simp add: navigate_def)
      qed
    qed
  qed
  then show ?thesis using False by (simp add: enhanced_step_def)
qed

lemma run_inv_hypotheses:
  assumes "run_inv b"
  shows "q_fits (q_table b) (maze b)" and "is_valid (maze b) (state b)" and "cache_fits b"
    and "dead_ends_justified (maze b) (goal b) (dead_ends b)"
    and "\<exists>ps. is_path (maze b) (start b) (state b) ps"
proof -
  show "q_fits (q_table b) (maze b)" "cache_fits b"
    "dead_ends_justified (maze b) (goal b) (dead_ends b)"
    and p: "\<exists>ps. is_path (maze b) (start b) (state b) ps"
    using assms by (simp_all add: run_inv_def)
  show "is_valid (maze b) (state b)" using p is_path_valid_ends(2) by blast
qed

section \<open>Repeated Q-updates\<close>















section \<open>The maze of the adaptive game\<close>

text \<open>
  C4. Every grid of \<open>AdaptiveMazeGame.generate_maze\<close> is to hold one START and one GOAL
  cell joined by a path. For width and height 13 and the algorithm \<open>dfs\<close>, with the draws
  \<open>pillar_draws\<close>, the game returns \<open>maze_pillar\<close>: START is written at the centre (6, 6),
  a position between four lattice cells that no algorithm carves, all four of its
  neighbours are walls, and the solver finds no path from START to GOAL.
\<close>

theorem adaptive_maze_start_walled_in:
  "map_option (map_sum id fst) (adaptive_generate_maze 13 13 ''dfs'' (pillar_draws, 0))
     = Some (Inr maze_pillar)
   \<and> argwhere maze_pillar START = [(6, 6)]
   \<and> argwhere maze_pillar GOAL = [(1, 1)]
   \<and> count_valid_moves maze_pillar (6, 6) = 0
   \<and> solve maze_pillar (6, 6) (1, 1) = []"
  by code_simp

end
